theory Spec2Isabelle
  imports Main "HOL-Library.Word"
begin

unbundle bit_operations_syntax

section \<open>Data model of slice\_intern.c\<close>

text \<open>
  Addresses of heap blocks holding an \<open>interned_slice_refcount\<close> are natural numbers;
  a C pointer to such a block is an \<open>addr option\<close> with \<open>None\<close> for the null pointer.
  \<open>uint32_t\<close> is \<open>32 word\<close>. Quantities of type \<open>size_t\<close> (count, capacity, lengths,
  loop counters of type \<open>size_t\<close>) are natural numbers taken on a target where
  \<open>size_t\<close> has 64 bits: the one subtraction (\<open>shard->count--\<close>) and the sum of the
  table construction have their wrap-around modulo \<open>2 ^ 64\<close> written out.
  \<open>gpr_atm\<close> is a signed machine word used as a reference counter and modelled by \<open>int\<close>.
\<close>

type_synonym u8 = "8 word"
type_synonym u32 = "32 word"
type_synonym addr = nat

datatype error = Assertion_failed | Invalid_pointer | Division_by_zero | Aborted

record static_metadata_hash_ent =
  hash :: u32
  idx :: u32

text \<open>
  \<open>interned_slice_refcount\<close>: the field \<open>base\<close> only holds the constant pointer to
  \<open>interned_slice_vtable\<close> and is represented by the constructor \<open>Interned\<close> of
  \<open>refcount_ptr\<close> below. \<open>slen\<close> is the field \<open>length\<close>; \<open>payload\<close> is the
  storage that follows the header in the same block (the bytes at \<open>s + 1\<close>).
\<close>

record interned_slice_refcount =
  slen :: nat
  refcnt :: int
  hash :: u32
  bucket_next :: "addr option"
  payload :: "u8 list"

type_synonym heap = "addr \<Rightarrow> interned_slice_refcount option"

text \<open>
  \<open>slice_shard\<close>: \<open>strs\<close> is the malloc'ed array of bucket heads. The mutex \<open>mu\<close> is
  represented by the events of the trace of the global state.
\<close>

record slice_shard =
  strs :: "addr option list"
  count :: nat
  capacity :: nat

text \<open>
  A \<open>grpc_slice\<close> is a refcount pointer, a pointer to its first byte and a length.
  The refcount pointer is null, the address of an interned block, a refcount object whose
  vtable has \<open>grpc_static_slice_hash\<close> in its hash slot, or any other refcount object
  (whose vtable has \<open>grpc_slice_default_hash_impl\<close> in its hash slot).
  The bytes pointer is compared with \<open>(uint8_t * )(s + 1)\<close> by the code, so it is either
  the payload of an interned block or some other address. \<open>content\<close> is the byte
  sequence found at the bytes pointer, of the slice's length.
\<close>

datatype refcount_ptr = NULL | Interned addr | Static nat | Other nat

datatype bytes_ptr = Payload addr | Elsewhere nat

record grpc_slice =
  refcount :: refcount_ptr
  bytes :: bytes_ptr
  content :: "u8 list"

datatype event =
    Mu_init nat | Mu_lock nat | Mu_unlock nat | Mu_destroy nat
  | Log_warning nat | Log_leaked grpc_slice | Strs_free nat

text \<open>
  The collaborators that are not part of slice\_intern.c are parameters:
  the seeded hash \<open>gpr_murmur_hash3\<close>, the table \<open>grpc_static_slice_table\<close> (its length is
  \<open>GRPC_STATIC_MDSTR_COUNT\<close>), the two functions of static\_metadata.h, the allocator
  (\<open>gpr_malloc\<close> gives the address of the new block from the current heap) and the flag
  \<open>grpc_iomgr_abort_on_leaks\<close>.
\<close>

record extern =
  gpr_murmur_hash3 :: "u8 list \<Rightarrow> u32 \<Rightarrow> u32"
  grpc_static_slice_table :: "grpc_slice list"
  grpc_is_static_metadata_string :: "grpc_slice \<Rightarrow> bool"
  grpc_static_metadata_index :: "grpc_slice \<Rightarrow> int"
  gpr_malloc :: "heap \<Rightarrow> addr"
  grpc_iomgr_abort_on_leaks :: bool

text \<open>
  The file's static variables, the heap of interned blocks, and the trace of mutex and log
  events. The static arrays have a fixed size and are functions of the index.
\<close>

record state =
  g_hash_seed :: u32
  g_forced_hash_seed :: bool
  g_shards :: "nat \<Rightarrow> slice_shard"
  static_metadata_hash :: "nat \<Rightarrow> static_metadata_hash_ent"
  max_static_metadata_hash_probe :: u32
  static_metadata_hash_values :: "nat \<Rightarrow> u32"
  heap :: heap
  trace :: "event list"

definition LOG2_SHARD_COUNT :: nat where
  "LOG2_SHARD_COUNT = 5"

definition SHARD_COUNT :: nat where
  "SHARD_COUNT = 2 ^ LOG2_SHARD_COUNT"

definition INITIAL_SHARD_CAPACITY :: nat where
  "INITIAL_SHARD_CAPACITY = 8"

definition TABLE_IDX :: "u32 \<Rightarrow> nat \<Rightarrow> nat" where
  "TABLE_IDX h cap = unat (drop_bit LOG2_SHARD_COUNT h) mod cap"

definition SHARD_IDX :: "u32 \<Rightarrow> nat" where
  "SHARD_IDX h = unat (h AND (push_bit LOG2_SHARD_COUNT 1 - 1))"

definition GRPC_STATIC_MDSTR_COUNT :: "extern \<Rightarrow> nat" where
  "GRPC_STATIC_MDSTR_COUNT E = length (grpc_static_slice_table E)"

text \<open>\<open>GPR_ARRAY_SIZE(static_metadata_hash)\<close>\<close>

definition static_metadata_hash_size :: "extern \<Rightarrow> nat" where
  "static_metadata_hash_size E = 4 * GRPC_STATIC_MDSTR_COUNT E"

text \<open>
  \<open>grpc_slice_cmp\<close> is defined in slice.c; only its comparison with 0 is used here.
  Modelled from the spec: "byte content compares equal".
\<close>

definition grpc_slice_cmp :: "grpc_slice \<Rightarrow> grpc_slice \<Rightarrow> int" where
  "grpc_slice_cmp a b = (if content a = content b then 0 else 1)"

subsection \<open>Atomic operations on the reference counter\<close>

definition gpr_atm_fetch_add :: "heap \<Rightarrow> addr \<Rightarrow> int \<Rightarrow> error + heap \<times> int" where
  "gpr_atm_fetch_add h s d =
     (case h s of
        None \<Rightarrow> Inl Invalid_pointer
      | Some r \<Rightarrow> Inr (h(s \<mapsto> r\<lparr>refcnt := refcnt r + d\<rparr>), refcnt r))"

definition gpr_atm_rel_cas :: "heap \<Rightarrow> addr \<Rightarrow> int \<Rightarrow> int \<Rightarrow> error + heap \<times> bool" where
  "gpr_atm_rel_cas h s old new =
     (case h s of
        None \<Rightarrow> Inl Invalid_pointer
      | Some r \<Rightarrow>
          if refcnt r = old then Inr (h(s \<mapsto> r\<lparr>refcnt := new\<rparr>), True)
          else Inr (h, False))"

definition interned_slice_ref :: "state \<Rightarrow> addr \<Rightarrow> error + state" where
  "interned_slice_ref st s =
     (case gpr_atm_fetch_add (heap st) s 1 of
        Inl e \<Rightarrow> Inl e
      | Inr (h, old) \<Rightarrow> if old > 0 then Inr (st\<lparr>heap := h\<rparr>) else Inl Assertion_failed)"

subsection \<open>Hashing\<close>

definition materialize :: "addr \<Rightarrow> interned_slice_refcount \<Rightarrow> grpc_slice" where
  "materialize s r =
     \<lparr>refcount = Interned s, bytes = Payload s, content = take (slen r) (payload r)\<rparr>"

definition grpc_slice_default_hash_impl :: "extern \<Rightarrow> state \<Rightarrow> grpc_slice \<Rightarrow> u32" where
  "grpc_slice_default_hash_impl E st s = gpr_murmur_hash3 E (content s) (g_hash_seed st)"

definition interned_slice_hash :: "extern \<Rightarrow> state \<Rightarrow> addr \<Rightarrow> grpc_slice \<Rightarrow> error + u32" where
  "interned_slice_hash E st p sl =
     (case heap st p of
        None \<Rightarrow> Inl Invalid_pointer
      | Some s \<Rightarrow>
          if bytes sl = Payload p \<and> length (content sl) = slen s
          then Inr (interned_slice_refcount.hash s)
          else Inr (grpc_slice_default_hash_impl E st sl))"

definition grpc_static_slice_hash :: "extern \<Rightarrow> state \<Rightarrow> grpc_slice \<Rightarrow> u32" where
  "grpc_static_slice_hash E st s =
     (let id = grpc_static_metadata_index E s in
      if id = - 1 then grpc_slice_default_hash_impl E st s
      else static_metadata_hash_values st (nat id))"

definition grpc_slice_hash :: "extern \<Rightarrow> state \<Rightarrow> grpc_slice \<Rightarrow> error + u32" where
  "grpc_slice_hash E st s =
     (case refcount s of
        NULL \<Rightarrow> Inr (grpc_slice_default_hash_impl E st s)
      | Interned p \<Rightarrow> interned_slice_hash E st p s
      | Static n \<Rightarrow> Inr (grpc_static_slice_hash E st s)
      | Other n \<Rightarrow> Inr (grpc_slice_default_hash_impl E st s))"

subsection \<open>The static table: construction and probing\<close>

text \<open>
  The probe loop shared by \<open>grpc_slice_static_intern\<close> and \<open>grpc_slice_intern\<close>
  (\<open>for (uint32_t i = 0; i <= max_static_metadata_hash_probe; i++)\<close>). The sum
  \<open>hash + i\<close> is a sum of two \<open>uint32_t\<close> and wraps modulo \<open>2 ^ 32\<close> before the
  remainder is taken. The result is \<open>Some (Some t)\<close> for a hit on the static slice \<open>t\<close>,
  \<open>Some None\<close> when the loop ends without a hit, and \<open>None\<close> when the loop does not end:
  with a bound of \<open>2 ^ 32 - 1\<close> the condition \<open>i <= max\<close> is always true and the counter
  wraps to 0.
\<close>

function static_probe ::
  "extern \<Rightarrow> state \<Rightarrow> u32 \<Rightarrow> grpc_slice \<Rightarrow> u32 \<Rightarrow> grpc_slice option option" where
  "static_probe E st hs sl i =
     (if i \<le> max_static_metadata_hash_probe st then
        (let ent = static_metadata_hash st (unat (hs + i) mod static_metadata_hash_size E) in
         if static_metadata_hash_ent.hash ent = hs \<and>
            unat (idx ent) < GRPC_STATIC_MDSTR_COUNT E \<and>
            grpc_slice_cmp (grpc_static_slice_table E ! unat (idx ent)) sl = 0
         then Some (Some (grpc_static_slice_table E ! unat (idx ent)))
         else if i = - 1 then None
         else static_probe E st hs sl (i + 1))
      else Some None)"
  by pat_completeness auto
termination
proof (relation "measure (\<lambda>(E, st, hs, sl, i). 2 ^ 32 - unat i)")
  show "wf (measure (\<lambda>(E, st, hs, sl, i). 2 ^ 32 - unat (i :: u32)))"
    by simp
next
  fix E :: extern and st :: state and hs :: u32 and sl :: grpc_slice and i :: u32
    and x :: static_metadata_hash_ent
  assume "i \<noteq> - 1"
  then have "1 + i \<noteq> 0"
    by (metis add_eq_0_iff)
  then have "unat (1 + i) = Suc (unat i)"
    by (rule unatSuc)
  then have "unat (i + 1) = Suc (unat i)"
    by (simp add: add.commute)
  moreover have "unat i < 2 ^ 32"
    using unsigned_less [of i] by simp
  ultimately show "((E, st, hs, sl, i + 1), (E, st, hs, sl, i))
      \<in> measure (\<lambda>(E, st, hs, sl, i). 2 ^ 32 - unat i)"
    by simp
qed

text \<open>
  \<open>grpc_slice_intern_init\<close>, lines 282-293: the slot search for static string \<open>i\<close>.
  The counter \<open>j\<close> is a \<open>size_t\<close>, so the sum \<open>static_metadata_hash_values[i] + j\<close> is
  computed in \<open>size_t\<close> (64 bits).
\<close>

function init_insert :: "extern \<Rightarrow> state \<Rightarrow> nat \<Rightarrow> nat \<Rightarrow> state" where
  "init_insert E st i j =
     (if j < static_metadata_hash_size E then
        (let slot = ((unat (static_metadata_hash_values st i) + j) mod 2 ^ 64)
                      mod static_metadata_hash_size E in
         if idx (static_metadata_hash st slot) = of_nat (GRPC_STATIC_MDSTR_COUNT E) then
           st\<lparr>static_metadata_hash := (static_metadata_hash st)
                  (slot := \<lparr>static_metadata_hash_ent.hash = static_metadata_hash_values st i,
                            idx = of_nat i\<rparr>),
              max_static_metadata_hash_probe :=
                (if j > unat (max_static_metadata_hash_probe st) then of_nat j
                 else max_static_metadata_hash_probe st)\<rparr>
         else init_insert E st i (j + 1))
      else st)"
  by pat_completeness auto
termination
  by (relation "measure (\<lambda>(E, st, i, j). static_metadata_hash_size E - j)") auto

definition init_static_string :: "extern \<Rightarrow> nat \<Rightarrow> state \<Rightarrow> state" where
  "init_static_string E i st =
     init_insert E
       (st\<lparr>static_metadata_hash_values := (static_metadata_hash_values st)
              (i := grpc_slice_default_hash_impl E st (grpc_static_slice_table E ! i))\<rparr>) i 0"

definition init_shard :: "nat \<Rightarrow> state \<Rightarrow> state" where
  "init_shard i st =
     st\<lparr>g_shards := (g_shards st)
            (i := \<lparr>strs = replicate INITIAL_SHARD_CAPACITY None, count = 0,
                   capacity = INITIAL_SHARD_CAPACITY\<rparr>),
        trace := trace st @ [Mu_init i]\<rparr>"

definition init_clear_slot :: "extern \<Rightarrow> nat \<Rightarrow> state \<Rightarrow> state" where
  "init_clear_slot E i st =
     st\<lparr>static_metadata_hash := (static_metadata_hash st)
            (i := \<lparr>static_metadata_hash_ent.hash = 0,
                   idx = of_nat (GRPC_STATIC_MDSTR_COUNT E)\<rparr>)\<rparr>"

text \<open>
  \<open>grpc_slice_intern_init\<close>; \<open>now\<close> is the value of
  \<open>(uint32_t)gpr_now(GPR_CLOCK_REALTIME).tv_nsec\<close>.
\<close>

definition grpc_slice_intern_init :: "extern \<Rightarrow> u32 \<Rightarrow> state \<Rightarrow> state" where
  "grpc_slice_intern_init E now st =
     (let st1 = (if \<not> g_forced_hash_seed st then st\<lparr>g_hash_seed := now\<rparr> else st);
          st2 = fold init_shard [0..<SHARD_COUNT] st1;
          st3 = fold (init_clear_slot E) [0..<static_metadata_hash_size E] st2;
          st4 = st3\<lparr>max_static_metadata_hash_probe := 0\<rparr>
      in fold (init_static_string E) [0..<GRPC_STATIC_MDSTR_COUNT E] st4)"

definition grpc_test_only_set_slice_hash_seed :: "u32 \<Rightarrow> state \<Rightarrow> state" where
  "grpc_test_only_set_slice_hash_seed seed st =
     st\<lparr>g_hash_seed := seed, g_forced_hash_seed := True\<rparr>"

subsection \<open>grow\_shard\<close>

text \<open>
  The inner loop of \<open>grow_shard\<close> (lines 137-142): the chain that starts at \<open>s\<close> is
  relinked node by node into the new array \<open>strtab\<close> of capacity \<open>cap\<close>. A chain that
  never reaches the null pointer makes the loop run forever (\<open>None\<close>). The first
  argument is the loop variable \<open>s\<close>.
\<close>

partial_function (option) grow_shard_chain ::
  "addr option \<Rightarrow> heap \<Rightarrow> addr option list \<Rightarrow> nat \<Rightarrow> (error + heap \<times> addr option list) option"
  where
  "grow_shard_chain s h strtab cap =
     (case s of
        None \<Rightarrow> Some (Inr (h, strtab))
      | Some p \<Rightarrow>
          (case h p of
             None \<Rightarrow> Some (Inl Invalid_pointer)
           | Some r \<Rightarrow>
               grow_shard_chain (bucket_next r)
                 (h(p \<mapsto> r\<lparr>bucket_next := strtab ! TABLE_IDX (interned_slice_refcount.hash r) cap\<rparr>))
                 (strtab[TABLE_IDX (interned_slice_refcount.hash r) cap := Some p])
                 cap))"

text \<open>The outer loop over the old buckets; the old array is only read.\<close>

fun grow_shard_buckets ::
  "heap \<Rightarrow> addr option list \<Rightarrow> nat \<Rightarrow> addr option list \<Rightarrow> (error + heap \<times> addr option list) option"
  where
  "grow_shard_buckets h strtab cap [] = Some (Inr (h, strtab))"
| "grow_shard_buckets h strtab cap (s # ss) =
     (case grow_shard_chain s h strtab cap of
        None \<Rightarrow> None
      | Some (Inl e) \<Rightarrow> Some (Inl e)
      | Some (Inr (h', strtab')) \<Rightarrow> grow_shard_buckets h' strtab' cap ss)"

definition grow_shard :: "heap \<Rightarrow> slice_shard \<Rightarrow> (error + heap \<times> slice_shard) option" where
  "grow_shard h shard =
     (let cap = capacity shard * 2 in
      if length (strs shard) < capacity shard then Some (Inl Invalid_pointer)
      else
        (case grow_shard_buckets h (replicate cap None) cap (take (capacity shard) (strs shard)) of
           None \<Rightarrow> None
         | Some (Inl e) \<Rightarrow> Some (Inl e)
         | Some (Inr (h', strtab)) \<Rightarrow> Some (Inr (h', shard\<lparr>strs := strtab, capacity := cap\<rparr>))))"

subsection \<open>grpc\_slice\_intern\<close>

text \<open>
  The search loop of \<open>grpc_slice_intern\<close> (lines 218-233) over the chain that starts at
  \<open>s\<close> (first argument). The result is the heap and the block found, or the null
  pointer when the loop ends without returning.
\<close>

partial_function (option) grpc_slice_intern_scan ::
  "addr option \<Rightarrow> heap \<Rightarrow> u32 \<Rightarrow> grpc_slice \<Rightarrow> (error + heap \<times> addr option) option"
  where
  "grpc_slice_intern_scan s h hs sl =
     (case s of
        None \<Rightarrow> Some (Inr (h, None))
      | Some p \<Rightarrow>
          (case h p of
             None \<Rightarrow> Some (Inl Invalid_pointer)
           | Some r \<Rightarrow>
               if interned_slice_refcount.hash r = hs \<and> grpc_slice_cmp sl (materialize p r) = 0
               then
                 (case gpr_atm_fetch_add h p 1 of
                    Inl e \<Rightarrow> Some (Inl e)
                  | Inr (h1, old) \<Rightarrow>
                      if old = 0 then
                        (case gpr_atm_rel_cas h1 p 1 0 of
                           Inl e \<Rightarrow> Some (Inl e)
                         | Inr (h2, ok) \<Rightarrow>
                             if ok then grpc_slice_intern_scan (bucket_next r) h2 hs sl
                             else Some (Inl Assertion_failed))
                      else Some (Inr (h1, Some p)))
               else grpc_slice_intern_scan (bucket_next r) h hs sl))"

text \<open>Lines 235-254: the new block, its insertion at the head of bucket \<open>i\<close>, the growth.\<close>

definition grpc_slice_intern_create ::
  "extern \<Rightarrow> heap \<Rightarrow> slice_shard \<Rightarrow> u32 \<Rightarrow> grpc_slice \<Rightarrow> nat
     \<Rightarrow> (error + heap \<times> slice_shard \<times> grpc_slice) option" where
  "grpc_slice_intern_create E h shard hs sl i =
     (let s = gpr_malloc E h;
          h1 = h(s \<mapsto> \<lparr>slen = length (content sl), refcnt = 1, hash = hs,
                         bucket_next = strs shard ! i, payload = content sl\<rparr>);
          shard1 = shard\<lparr>strs := (strs shard)[i := Some s], count := count shard + 1\<rparr>
      in
        (case (if count shard1 > capacity shard1 * 2 then grow_shard h1 shard1
               else Some (Inr (h1, shard1))) of
           None \<Rightarrow> None
         | Some (Inl e) \<Rightarrow> Some (Inl e)
         | Some (Inr (h2, shard2)) \<Rightarrow>
             (case h2 s of
                None \<Rightarrow> Some (Inl Invalid_pointer)
              | Some r \<Rightarrow> Some (Inr (h2, shard2, materialize s r)))))"

text \<open>
  Lines 216-254, between \<open>gpr_mu_lock\<close> and \<open>gpr_mu_unlock\<close>, on the heap and the
  shard of the hash. A capacity of 0 is a division by zero in \<open>TABLE_IDX\<close>; an index
  outside the array \<open>strs\<close> is an invalid read.
\<close>

definition grpc_slice_intern_locked ::
  "extern \<Rightarrow> heap \<Rightarrow> slice_shard \<Rightarrow> u32 \<Rightarrow> grpc_slice
     \<Rightarrow> (error + heap \<times> slice_shard \<times> grpc_slice) option" where
  "grpc_slice_intern_locked E h shard hs sl =
     (if capacity shard = 0 then Some (Inl Division_by_zero)
      else if length (strs shard) \<le> TABLE_IDX hs (capacity shard) then Some (Inl Invalid_pointer)
      else
        (case grpc_slice_intern_scan (strs shard ! TABLE_IDX hs (capacity shard)) h hs sl of
           None \<Rightarrow> None
         | Some (Inl e) \<Rightarrow> Some (Inl e)
         | Some (Inr (h1, Some s)) \<Rightarrow>
             (case h1 s of
                None \<Rightarrow> Some (Inl Invalid_pointer)
              | Some r \<Rightarrow> Some (Inr (h1, shard, materialize s r)))
         | Some (Inr (h1, None)) \<Rightarrow>
             grpc_slice_intern_create E h1 shard hs sl (TABLE_IDX hs (capacity shard))))"

definition grpc_slice_intern ::
  "extern \<Rightarrow> state \<Rightarrow> grpc_slice \<Rightarrow> (error + state \<times> grpc_slice) option" where
  "grpc_slice_intern E st sl =
     (if grpc_is_static_metadata_string E sl then Some (Inr (st, sl))
      else
        (case grpc_slice_hash E st sl of
           Inl e \<Rightarrow> Some (Inl e)
         | Inr hs \<Rightarrow>
             (case static_probe E st hs sl 0 of
                None \<Rightarrow> None
              | Some (Some t) \<Rightarrow> Some (Inr (st, t))
              | Some None \<Rightarrow>
                  (case grpc_slice_intern_locked E (heap st) (g_shards st (SHARD_IDX hs)) hs sl of
                     None \<Rightarrow> None
                   | Some (Inl e) \<Rightarrow> Some (Inl e)
                   | Some (Inr (h, shard, res)) \<Rightarrow>
                       Some (Inr (st\<lparr>g_shards := (g_shards st)(SHARD_IDX hs := shard),
                                      heap := h,
                                      trace := trace st @
                                        [Mu_lock (SHARD_IDX hs), Mu_unlock (SHARD_IDX hs)]\<rparr>,
                                  res))))))"

subsection \<open>interned\_slice\_unref and interned\_slice\_destroy\<close>

text \<open>
  \<open>prev_next\<close> points either to the bucket head \<open>shard->strs[i]\<close> or to the field
  \<open>bucket_next\<close> of a block.
\<close>

datatype link = Head nat | Next addr

text \<open>
  The loop of \<open>interned_slice_destroy\<close> (lines 96-99); the first argument is \<open>cur\<close>.
  Reading \<open>cur->bucket_next\<close> through a null or dangling \<open>cur\<close> is an invalid read.
\<close>

partial_function (option) interned_slice_destroy_find ::
  "addr option \<Rightarrow> link \<Rightarrow> heap \<Rightarrow> addr \<Rightarrow> (error + link) option" where
  "interned_slice_destroy_find cur prev_next h s =
     (case cur of
        None \<Rightarrow> Some (Inl Invalid_pointer)
      | Some c \<Rightarrow>
          if c = s then Some (Inr prev_next)
          else
            (case h c of
               None \<Rightarrow> Some (Inl Invalid_pointer)
             | Some r \<Rightarrow> interned_slice_destroy_find (bucket_next r) (Next c) h s))"

text \<open>Lines 93-102, between \<open>gpr_mu_lock\<close> and \<open>gpr_mu_unlock\<close>.\<close>

definition interned_slice_destroy_locked ::
  "heap \<Rightarrow> slice_shard \<Rightarrow> addr \<Rightarrow> (error + heap \<times> slice_shard) option" where
  "interned_slice_destroy_locked h shard s =
     (case h s of
        None \<Rightarrow> Some (Inl Invalid_pointer)
      | Some r \<Rightarrow>
          if refcnt r \<noteq> 0 then Some (Inl Assertion_failed)
          else if capacity shard = 0 then Some (Inl Division_by_zero)
          else if length (strs shard) \<le> TABLE_IDX (interned_slice_refcount.hash r) (capacity shard)
          then Some (Inl Invalid_pointer)
          else
            (case interned_slice_destroy_find
                    (strs shard ! TABLE_IDX (interned_slice_refcount.hash r) (capacity shard))
                    (Head (TABLE_IDX (interned_slice_refcount.hash r) (capacity shard))) h s of
               None \<Rightarrow> None
             | Some (Inl e) \<Rightarrow> Some (Inl e)
             | Some (Inr (Head i)) \<Rightarrow>
                 Some (Inr (h(s := None),
                            shard\<lparr>strs := (strs shard)[i := bucket_next r],
                                  count := (count shard + 2 ^ 64 - 1) mod 2 ^ 64\<rparr>))
             | Some (Inr (Next c)) \<Rightarrow>
                 (case h c of
                    None \<Rightarrow> Some (Inl Invalid_pointer)
                  | Some rc \<Rightarrow>
                      Some (Inr ((h(c \<mapsto> rc\<lparr>bucket_next := bucket_next r\<rparr>))(s := None),
                                 shard\<lparr>count := (count shard + 2 ^ 64 - 1) mod 2 ^ 64\<rparr>)))))"

definition interned_slice_destroy :: "state \<Rightarrow> addr \<Rightarrow> (error + state) option" where
  "interned_slice_destroy st s =
     (case heap st s of
        None \<Rightarrow> Some (Inl Invalid_pointer)
      | Some r \<Rightarrow>
          (case interned_slice_destroy_locked (heap st)
                  (g_shards st (SHARD_IDX (interned_slice_refcount.hash r))) s of
             None \<Rightarrow> None
           | Some (Inl e) \<Rightarrow> Some (Inl e)
           | Some (Inr (h, shard)) \<Rightarrow>
               Some (Inr (st\<lparr>g_shards := (g_shards st)
                                 (SHARD_IDX (interned_slice_refcount.hash r) := shard),
                              heap := h,
                              trace := trace st @
                                [Mu_lock (SHARD_IDX (interned_slice_refcount.hash r)),
                                 Mu_unlock (SHARD_IDX (interned_slice_refcount.hash r))]\<rparr>))))"

definition interned_slice_unref :: "state \<Rightarrow> addr \<Rightarrow> (error + state) option" where
  "interned_slice_unref st s =
     (case gpr_atm_fetch_add (heap st) s (- 1) of
        Inl e \<Rightarrow> Some (Inl e)
      | Inr (h, old) \<Rightarrow>
          if old = 1 then interned_slice_destroy (st\<lparr>heap := h\<rparr>) s
          else Some (Inr (st\<lparr>heap := h\<rparr>)))"

text \<open>
  \<open>grpc_slice_unref\<close> (slice.c) calls the \<open>unref\<close> slot of the vtable of a non-null
  refcount; for an interned block that slot is \<open>interned_slice_unref\<close>. The other
  refcount objects are not part of the state of this file.
\<close>

definition grpc_slice_unref :: "state \<Rightarrow> grpc_slice \<Rightarrow> (error + state) option" where
  "grpc_slice_unref st sl =
     (case refcount sl of
        Interned p \<Rightarrow> interned_slice_unref st p
      | _ \<Rightarrow> Some (Inr st))"

subsection \<open>grpc\_slice\_static\_intern\<close>

text \<open>The slice behind the pointer argument is returned with the state.\<close>

definition grpc_slice_static_intern ::
  "extern \<Rightarrow> state \<Rightarrow> grpc_slice \<Rightarrow> (error + state \<times> grpc_slice) option" where
  "grpc_slice_static_intern E st sl =
     (if grpc_is_static_metadata_string E sl then Some (Inr (st, sl))
      else
        (case grpc_slice_hash E st sl of
           Inl e \<Rightarrow> Some (Inl e)
         | Inr hs \<Rightarrow>
             (case static_probe E st hs sl 0 of
                None \<Rightarrow> None
              | Some None \<Rightarrow> Some (Inr (st, sl))
              | Some (Some t) \<Rightarrow>
                  (case grpc_slice_unref st sl of
                     None \<Rightarrow> None
                   | Some (Inl e) \<Rightarrow> Some (Inl e)
                   | Some (Inr st') \<Rightarrow> Some (Inr (st', t))))))"

subsection \<open>grpc\_slice\_intern\_shutdown\<close>

text \<open>Lines 306-312: one \<open>LEAKED\<close> record for every block of the chain from \<open>s\<close>.\<close>

partial_function (option) shutdown_chain ::
  "addr option \<Rightarrow> heap \<Rightarrow> event list \<Rightarrow> (error + event list) option" where
  "shutdown_chain s h tr =
     (case s of
        None \<Rightarrow> Some (Inr tr)
      | Some p \<Rightarrow>
          (case h p of
             None \<Rightarrow> Some (Inl Invalid_pointer)
           | Some r \<Rightarrow> shutdown_chain (bucket_next r) h (tr @ [Log_leaked (materialize p r)])))"

fun shutdown_buckets ::
  "heap \<Rightarrow> event list \<Rightarrow> addr option list \<Rightarrow> (error + event list) option" where
  "shutdown_buckets h tr [] = Some (Inr tr)"
| "shutdown_buckets h tr (s # ss) =
     (case shutdown_chain s h tr of
        None \<Rightarrow> None
      | Some (Inl e) \<Rightarrow> Some (Inl e)
      | Some (Inr tr') \<Rightarrow> shutdown_buckets h tr' ss)"

text \<open>
  The body of the loop over the shards. A result \<open>Inl (e, st)\<close> is the end of the process
  with \<open>e\<close> in state \<open>st\<close>. The last statement, \<open>gpr_free(shard->strs)\<close>, is the event
  \<open>Strs_free\<close>; the pointer \<open>strs\<close> itself is left as it is.
\<close>

definition shutdown_shard ::
  "extern \<Rightarrow> state \<Rightarrow> nat \<Rightarrow> (error \<times> state + state) option" where
  "shutdown_shard E st i =
     (let shard = g_shards st i;
          st1 = st\<lparr>trace := trace st @ [Mu_destroy i]\<rparr>
      in
        if count shard \<noteq> 0 then
          (if length (strs shard) < capacity shard then Some (Inl (Invalid_pointer, st1))
           else
             (case shutdown_buckets (heap st1) (trace st1 @ [Log_warning (count shard)])
                     (take (capacity shard) (strs shard)) of
                None \<Rightarrow> None
              | Some (Inl e) \<Rightarrow> Some (Inl (e, st1))
              | Some (Inr tr) \<Rightarrow>
                  if grpc_iomgr_abort_on_leaks E then Some (Inl (Aborted, st1\<lparr>trace := tr\<rparr>))
                  else Some (Inr (st1\<lparr>trace := tr @ [Strs_free i]\<rparr>))))
        else Some (Inr (st1\<lparr>trace := trace st1 @ [Strs_free i]\<rparr>)))"

fun shutdown_shards ::
  "extern \<Rightarrow> state \<Rightarrow> nat list \<Rightarrow> (error \<times> state + state) option" where
  "shutdown_shards E st [] = Some (Inr st)"
| "shutdown_shards E st (i # is) =
     (case shutdown_shard E st i of
        None \<Rightarrow> None
      | Some (Inl x) \<Rightarrow> Some (Inl x)
      | Some (Inr st') \<Rightarrow> shutdown_shards E st' is)"

definition grpc_slice_intern_shutdown ::
  "extern \<Rightarrow> state \<Rightarrow> (error \<times> state + state) option" where
  "grpc_slice_intern_shutdown E st = shutdown_shards E st [0..<SHARD_COUNT]"

section \<open>Abstraction of the bucket chains\<close>

text \<open>
  \<open>is_chain h s ps\<close>: following \<open>bucket_next\<close> from the pointer \<open>s\<close> in heap \<open>h\<close> visits
  exactly the allocated blocks \<open>ps\<close>, in this order, and then reaches the null pointer.
\<close>

fun is_chain :: "heap \<Rightarrow> addr option \<Rightarrow> addr list \<Rightarrow> bool" where
  "is_chain h s [] = (s = None)"
| "is_chain h s (p # ps) =
     (s = Some p \<and> (case h p of None \<Rightarrow> False | Some r \<Rightarrow> is_chain h (bucket_next r) ps))"

definition hash_of :: "heap \<Rightarrow> addr \<Rightarrow> u32" where
  "hash_of h p = (case h p of None \<Rightarrow> 0 | Some r \<Rightarrow> interned_slice_refcount.hash r)"

definition content_of :: "heap \<Rightarrow> addr \<Rightarrow> u8 list" where
  "content_of h p = (case h p of None \<Rightarrow> [] | Some r \<Rightarrow> take (slen r) (payload r))"

text \<open>
  The invariant of a shard, relative to the list \<open>cs\<close> of its chains: the capacity is
  positive and is the length of \<open>strs\<close>; bucket \<open>i\<close> is the chain \<open>cs ! i\<close>; no block is on
  two chains or twice on one; \<open>count\<close> is the number of blocks; every block is in the bucket
  \<open>TABLE_IDX\<close> of its hash.
\<close>

definition chains_ok :: "heap \<Rightarrow> slice_shard \<Rightarrow> addr list list \<Rightarrow> bool" where
  "chains_ok h shard cs \<longleftrightarrow>
     0 < capacity shard \<and> length (strs shard) = capacity shard \<and>
     list_all2 (is_chain h) (strs shard) cs \<and>
     distinct (concat cs) \<and> count shard = length (concat cs) \<and>
     (\<forall>i\<in>{0..<length cs}. \<forall>p\<in>set (cs ! i). TABLE_IDX (hash_of h p) (capacity shard) = i)"

text \<open>
  A block matches a hash and a slice when the test of line 219 holds for it; it is live
  when its reference counter is not 0. \<open>unique_live\<close>: two live blocks of the shard with
  the same hash and the same content are the same block.
\<close>

definition matches :: "heap \<Rightarrow> u32 \<Rightarrow> grpc_slice \<Rightarrow> addr \<Rightarrow> bool" where
  "matches h hs sl p =
     (case h p of
        None \<Rightarrow> False
      | Some r \<Rightarrow> interned_slice_refcount.hash r = hs \<and> content sl = take (slen r) (payload r))"

definition live :: "heap \<Rightarrow> addr \<Rightarrow> bool" where
  "live h p = (case h p of None \<Rightarrow> False | Some r \<Rightarrow> refcnt r \<noteq> 0)"

definition unique_live :: "heap \<Rightarrow> addr list list \<Rightarrow> bool" where
  "unique_live h cs \<longleftrightarrow>
     (\<forall>p\<in>set (concat cs). \<forall>q\<in>set (concat cs).
        live h p \<and> live h q \<and> hash_of h p = hash_of h q \<and> content_of h p = content_of h q
        \<longrightarrow> p = q)"

text \<open>The heap after one more reference to block \<open>p\<close>.\<close>

definition add_ref :: "heap \<Rightarrow> addr \<Rightarrow> heap" where
  "add_ref h p = (case h p of None \<Rightarrow> h | Some r \<Rightarrow> h(p \<mapsto> r\<lparr>refcnt := refcnt r + 1\<rparr>))"

text \<open>
  Two heaps hold the same blocks when they have the same addresses allocated and the
  blocks at each address agree in every field but \<open>bucket_next\<close>.
\<close>

definition unlinked :: "interned_slice_refcount \<Rightarrow> interned_slice_refcount" where
  "unlinked r = r\<lparr>bucket_next := None\<rparr>"

definition same_blocks :: "heap \<Rightarrow> heap \<Rightarrow> bool" where
  "same_blocks h h' \<longleftrightarrow> (\<forall>p. map_option unlinked (h p) = map_option unlinked (h' p))"

text \<open>
  The chains of a shard after growth to capacity \<open>cap\<close>, as lists: every block of the old
  chains, bucket after bucket, is pushed on the front of the new chain of its hash.
\<close>

definition push_node :: "(addr \<Rightarrow> u32) \<Rightarrow> nat \<Rightarrow> addr \<Rightarrow> addr list list \<Rightarrow> addr list list" where
  "push_node hf cap p cs = cs[TABLE_IDX (hf p) cap := p # cs ! TABLE_IDX (hf p) cap]"

definition relinked :: "(addr \<Rightarrow> u32) \<Rightarrow> nat \<Rightarrow> addr list list \<Rightarrow> addr list list" where
  "relinked hf cap cs = fold (push_node hf cap) (concat cs) (replicate cap [])"

section \<open>Example states\<close>

text \<open>
  An environment whose hash is 256 times the length of the byte sequence (so that every
  sequence belongs to shard 0), with one static string of three bytes, and a shard of
  capacity 8 with two blocks in bucket 0.
\<close>

definition ex_static :: grpc_slice where
  "ex_static = \<lparr>refcount = Static 0, bytes = Elsewhere 0, content = [7, 7, 7]\<rparr>"

definition ex_extern :: extern where
  "ex_extern =
     \<lparr>gpr_murmur_hash3 = (\<lambda>bs seed. 256 * of_nat (length bs)),
      grpc_static_slice_table = [ex_static],
      grpc_is_static_metadata_string = (\<lambda>sl. case refcount sl of Static n \<Rightarrow> True | _ \<Rightarrow> False),
      grpc_static_metadata_index = (\<lambda>sl. case refcount sl of Static n \<Rightarrow> int n | _ \<Rightarrow> - 1),
      gpr_malloc = (\<lambda>h. if h 3 = None then 3 else if h 4 = None then 4 else 5),
      grpc_iomgr_abort_on_leaks = False\<rparr>"

definition ex_block :: "u32 \<Rightarrow> int \<Rightarrow> addr option \<Rightarrow> u8 list \<Rightarrow> interned_slice_refcount" where
  "ex_block hs n nxt bs = \<lparr>slen = length bs, refcnt = n, hash = hs, bucket_next = nxt, payload = bs\<rparr>"

definition ex_heap :: heap where
  "ex_heap = [1 \<mapsto> ex_block 0 1 (Some 2) [], 2 \<mapsto> ex_block 256 2 None [2]]"

definition ex_shard :: slice_shard where
  "ex_shard = \<lparr>strs = [Some 1, None, None, None, None, None, None, None], count = 2, capacity = 8\<rparr>"

definition ex_chains :: "addr list list" where
  "ex_chains = [[1, 2], [], [], [], [], [], [], []]"

text \<open>The block written by lines 237-244 for a slice, with a given link.\<close>

definition new_block :: "u32 \<Rightarrow> grpc_slice \<Rightarrow> addr option \<Rightarrow> interned_slice_refcount" where
  "new_block hs sl nxt =
     \<lparr>slen = length (content sl), refcnt = 1, hash = hs, bucket_next = nxt, payload = content sl\<rparr>"

text \<open>No block of the shard has a negative reference counter.\<close>

definition counted :: "heap \<Rightarrow> addr list list \<Rightarrow> bool" where
  "counted h cs \<longleftrightarrow>
     (\<forall>p\<in>set (concat cs). case h p of None \<Rightarrow> False | Some r \<Rightarrow> 0 \<le> refcnt r)"

text \<open>
  The cached hash of a block is the hash of its content. A slice is well formed in a state
  when a refcount pointer into the heap points to an allocated block with a correct
  cached hash, a bytes pointer to the payload of that block reads a prefix of the payload,
  and a refcount with the static vtable belongs to a static metadata string.
\<close>

definition block_ok :: "extern \<Rightarrow> state \<Rightarrow> interned_slice_refcount \<Rightarrow> bool" where
  "block_ok E st r \<longleftrightarrow>
     interned_slice_refcount.hash r =
       gpr_murmur_hash3 E (take (slen r) (payload r)) (g_hash_seed st)"

definition slice_ok :: "extern \<Rightarrow> state \<Rightarrow> grpc_slice \<Rightarrow> bool" where
  "slice_ok E st sl \<longleftrightarrow>
     (case refcount sl of
        Interned p \<Rightarrow>
          (case heap st p of
             None \<Rightarrow> False
           | Some r \<Rightarrow>
               block_ok E st r \<and>
               (bytes sl = Payload p \<longrightarrow> content sl = take (length (content sl)) (payload r)))
      | Static n \<Rightarrow> grpc_is_static_metadata_string E sl
      | _ \<Rightarrow> True)"

text \<open>
  The handle that stands for the content of a slice in a state: the static slice found by
  the probe, else the first live block of the bucket that matches, else the block that
  \<open>gpr_malloc\<close> is about to give.
\<close>

definition canonical :: "extern \<Rightarrow> state \<Rightarrow> addr list list \<Rightarrow> grpc_slice \<Rightarrow> grpc_slice" where
  "canonical E st cs sl =
     (let hs = gpr_murmur_hash3 E (content sl) (g_hash_seed st);
          shard = g_shards st (SHARD_IDX hs)
      in case static_probe E st hs sl 0 of
           Some (Some t) \<Rightarrow> t
         | _ \<Rightarrow>
           (case List.find (\<lambda>q. matches (heap st) hs sl q \<and> live (heap st) q)
                   (cs ! TABLE_IDX hs (capacity shard)) of
              Some p \<Rightarrow>
                (case heap st p of
                   Some r \<Rightarrow> materialize p r
                 | None \<Rightarrow> \<lparr>refcount = Interned p, bytes = Payload p, content = content sl\<rparr>)
            | None \<Rightarrow>
                \<lparr>refcount = Interned (gpr_malloc E (heap st)),
                 bytes = Payload (gpr_malloc E (heap st)), content = content sl\<rparr>))"

text \<open>The state after a locked region on shard \<open>k\<close> that leaves heap \<open>h\<close> and the shard \<open>shard\<close>.\<close>

definition locked_state :: "state \<Rightarrow> nat \<Rightarrow> heap \<Rightarrow> slice_shard \<Rightarrow> state" where
  "locked_state st k h shard =
     st\<lparr>g_shards := (g_shards st)(k := shard), heap := h,
        trace := trace st @ [Mu_lock k, Mu_unlock k]\<rparr>"

text \<open>Every block of \<open>h\<close> is still allocated in \<open>h'\<close> with its length, payload and hash.\<close>

definition blocks_kept :: "heap \<Rightarrow> heap \<Rightarrow> bool" where
  "blocks_kept h h' \<longleftrightarrow>
     (\<forall>p. case h p of
             None \<Rightarrow> True
           | Some r \<Rightarrow>
               (case h' p of
                  None \<Rightarrow> False
                | Some r' \<Rightarrow> slen r' = slen r \<and> payload r' = payload r \<and>
                    interned_slice_refcount.hash r' = interned_slice_refcount.hash r))"

text \<open>
  A state with the example shard as shard 0, empty shards elsewhere, and the static table
  built for the one static string of the example environment.
\<close>

definition ex_state :: state where
  "ex_state =
     \<lparr>g_hash_seed = 0, g_forced_hash_seed = False,
      g_shards = (\<lambda>k. if k = 0 then ex_shard
                       else \<lparr>strs = replicate 8 None, count = 0, capacity = 8\<rparr>),
      static_metadata_hash =
        (\<lambda>i. if i = 0 then \<lparr>static_metadata_hash_ent.hash = 768, idx = 0\<rparr>
             else \<lparr>static_metadata_hash_ent.hash = 0, idx = 1\<rparr>),
      max_static_metadata_hash_probe = 0,
      static_metadata_hash_values = (\<lambda>i. 768),
      heap = ex_heap, trace = []\<rparr>"

definition ex_slice :: "nat \<Rightarrow> u8 list \<Rightarrow> grpc_slice" where
  "ex_slice n bs = \<lparr>refcount = Other n, bytes = Elsewhere n, content = bs\<rparr>"

text \<open>
  The link that the loop of \<open>interned_slice_destroy\<close> holds in \<open>prev_next\<close> when it stops
  at block \<open>s\<close> on the chain \<open>ps\<close>, starting with the link \<open>prev\<close>.
\<close>

fun link_of :: "link \<Rightarrow> addr list \<Rightarrow> addr \<Rightarrow> link" where
  "link_of prev [] s = prev"
| "link_of prev (p # ps) s = (if p = s then prev else link_of (Next p) ps s)"

text \<open>
  The example state with one more allocated block, at address 9, that is on no chain.
\<close>

definition ex_state_stray :: state where
  "ex_state_stray = ex_state\<lparr>heap := ex_heap(9 \<mapsto> ex_block 0 1 None [])\<rparr>"


text \<open>
  The operations of the file on interned slices, and their execution in sequence; an
  operation that does not return a state ends the run.
\<close>

datatype op = Intern grpc_slice | Static_intern grpc_slice | Ref addr | Unref addr

definition op_step :: "extern \<Rightarrow> state \<Rightarrow> op \<Rightarrow> (error + state) option" where
  "op_step E st x =
     (case x of
        Intern sl \<Rightarrow>
          (case grpc_slice_intern E st sl of
             None \<Rightarrow> None
           | Some (Inl e) \<Rightarrow> Some (Inl e)
           | Some (Inr (st', res)) \<Rightarrow> Some (Inr st'))
      | Static_intern sl \<Rightarrow>
          (case grpc_slice_static_intern E st sl of
             None \<Rightarrow> None
           | Some (Inl e) \<Rightarrow> Some (Inl e)
           | Some (Inr (st', res)) \<Rightarrow> Some (Inr st'))
      | Ref s \<Rightarrow> Some (interned_slice_ref st s)
      | Unref s \<Rightarrow> interned_slice_unref st s)"

fun run :: "extern \<Rightarrow> state \<Rightarrow> op list \<Rightarrow> (error + state) option" where
  "run E st [] = Some (Inr st)"
| "run E st (x # xs) =
     (case op_step E st x of
        None \<Rightarrow> None
      | Some (Inl e) \<Rightarrow> Some (Inl e)
      | Some (Inr st') \<Rightarrow> run E st' xs)"

text \<open>What one operation may do to the count and the capacity of a shard.\<close>

definition shard_step :: "slice_shard \<Rightarrow> slice_shard \<Rightarrow> bool" where
  "shard_step shard shard' \<longleftrightarrow>
     (capacity shard' = capacity shard \<and> count shard' \<noteq> count shard + 1) \<or>
     (0 < capacity shard \<and> count shard' = count shard + 1 \<and>
      capacity shard' =
        (if count shard + 1 > capacity shard * 2 then capacity shard * 2 else capacity shard))"

text \<open>The static variables of the file before \<open>grpc_slice_intern_init\<close>, and after it.\<close>

definition ex_power_on :: state where
  "ex_power_on =
     \<lparr>g_hash_seed = 0, g_forced_hash_seed = False,
      g_shards = (\<lambda>k. \<lparr>strs = [], count = 0, capacity = 0\<rparr>),
      static_metadata_hash = (\<lambda>i. \<lparr>static_metadata_hash_ent.hash = 0, idx = 0\<rparr>),
      max_static_metadata_hash_probe = 0,
      static_metadata_hash_values = (\<lambda>i. 0),
      heap = Map.empty, trace = []\<rparr>"

definition ex_booted :: state where
  "ex_booted = grpc_slice_intern_init ex_extern 0 ex_power_on"

text \<open>The state after the first \<open>grpc_slice_intern\<close> of the empty byte sequence.\<close>

definition ex_first :: state where
  "ex_first =
     locked_state ex_booted 0 [3 \<mapsto> new_block 0 (ex_slice 0 []) None]
       \<lparr>strs = (replicate INITIAL_SHARD_CAPACITY None)[0 := Some 3], count = 1,
        capacity = INITIAL_SHARD_CAPACITY\<rparr>"

text \<open>
  What \<open>grpc_slice_intern_shutdown\<close> writes for one shard whose chains are the lists \<open>cs\<close>:
  the destruction of the lock, then, for a shard with a nonzero count, the warning and one
  \<open>LEAKED\<close> record for every block of the chains, bucket after bucket, and the release of
  the bucket array unless the process aborts.
\<close>

definition leak_records :: "heap \<Rightarrow> addr list \<Rightarrow> event list" where
  "leak_records h ps = map (\<lambda>p. Log_leaked (materialize p (the (h p)))) ps"

definition shard_report ::
  "extern \<Rightarrow> heap \<Rightarrow> (nat \<Rightarrow> slice_shard) \<Rightarrow> (nat \<Rightarrow> addr list list) \<Rightarrow> nat \<Rightarrow> event list" where
  "shard_report E h shards css i =
     Mu_destroy i #
     (if count (shards i) = 0 then [Strs_free i]
      else Log_warning (count (shards i)) # leak_records h (concat (css i)) @
           (if grpc_iomgr_abort_on_leaks E then [] else [Strs_free i]))"

text \<open>
  The shards that the loop reaches: all of them, or, when the flag
  \<open>grpc_iomgr_abort_on_leaks\<close> is set, those up to the first one with a nonzero count.
\<close>

definition leaks :: "(nat \<Rightarrow> slice_shard) \<Rightarrow> nat list \<Rightarrow> bool" where
  "leaks shards is = list_ex (\<lambda>i. count (shards i) \<noteq> 0) is"

definition visited :: "extern \<Rightarrow> (nat \<Rightarrow> slice_shard) \<Rightarrow> nat list \<Rightarrow> nat list" where
  "visited E shards is =
     (if grpc_iomgr_abort_on_leaks E
      then takeWhile (\<lambda>i. count (shards i) = 0) is @
           take 1 (dropWhile (\<lambda>i. count (shards i) = 0) is)
      else is)"

text \<open>The chains of the shards of the example state, and the example environment with the flag set.\<close>

definition ex_css :: "nat \<Rightarrow> addr list list" where
  "ex_css k = (if k = 0 then ex_chains else replicate 8 [])"

definition ex_extern_abort :: extern where
  "ex_extern_abort = ex_extern\<lparr>grpc_iomgr_abort_on_leaks := True\<rparr>"

text \<open>
  A state whose shard 0 holds one block with the four bytes 7, 7, 7, 1 and one reference,
  and the slice of the first three bytes of that block: it shares the refcount of the
  block, and its content is the static string of the example environment.
\<close>

definition ex_state_sub :: state where
  "ex_state_sub =
     ex_state\<lparr>g_shards := (g_shards ex_state)
                 (0 := \<lparr>strs = [Some 1, None, None, None, None, None, None, None], count = 1,
                        capacity = 8\<rparr>),
              heap := [1 \<mapsto> ex_block 1024 1 None [7, 7, 7, 1]]\<rparr>"

definition ex_sub :: grpc_slice where
  "ex_sub = \<lparr>refcount = Interned 1, bytes = Payload 1, content = [7, 7, 7]\<rparr>"

definition ex_chains_sub :: "addr list list" where
  "ex_chains_sub = [[1], [], [], [], [], [], [], []]"

text \<open>
  An environment with three static strings of one byte whose seeded hashes are 2, 3 and
  \<open>2 ^ 32 - 2\<close>, and the state after \<open>grpc_slice_intern_init\<close> in this environment.
\<close>

definition ex_extern_wrap :: extern where
  "ex_extern_wrap =
     ex_extern\<lparr>gpr_murmur_hash3 :=
                  (\<lambda>bs seed. if bs = [1] then 2 else if bs = [2] then 3
                              else if bs = [3] then 0xFFFFFFFE else 64),
                grpc_static_slice_table :=
                  [\<lparr>refcount = Static 0, bytes = Elsewhere 0, content = [1]\<rparr>,
                   \<lparr>refcount = Static 1, bytes = Elsewhere 1, content = [2]\<rparr>,
                   \<lparr>refcount = Static 2, bytes = Elsewhere 2, content = [3]\<rparr>]\<rparr>"

definition ex_wrap :: state where
  "ex_wrap = grpc_slice_intern_init ex_extern_wrap 0 ex_power_on"

text \<open>
  The block that stands for a content in a shard: the first live block of the bucket that
  matches, else the block that \<open>gpr_malloc\<close> is about to give.
\<close>

definition canonical_block ::
  "extern \<Rightarrow> state \<Rightarrow> addr list list \<Rightarrow> u32 \<Rightarrow> grpc_slice \<Rightarrow> addr" where
  "canonical_block E st cs hs sl =
     (case List.find (\<lambda>q. matches (heap st) hs sl q \<and> live (heap st) q)
             (cs ! TABLE_IDX hs (capacity (g_shards st (SHARD_IDX hs)))) of
        Some p \<Rightarrow> p
      | None \<Rightarrow> gpr_malloc E (heap st))"

text \<open>
  Block \<open>p\<close> is an interned record of the bytes \<open>bs\<close> with hash \<open>hs\<close> and \<open>n\<close> references in
  state \<open>st\<close>: it is allocated, holds the bytes, and is linked in the bucket of its hash in
  the shard of its hash, whose chains are \<open>cs\<close>.
\<close>

definition interned_record ::
  "state \<Rightarrow> addr list list \<Rightarrow> addr \<Rightarrow> u32 \<Rightarrow> u8 list \<Rightarrow> int \<Rightarrow> bool" where
  "interned_record st cs p hs bs n \<longleftrightarrow>
     (case heap st p of
        None \<Rightarrow> False
      | Some blk \<Rightarrow>
          take (slen blk) (payload blk) = bs \<and> interned_slice_refcount.hash blk = hs \<and>
          refcnt blk = n) \<and>
     chains_ok (heap st) (g_shards st (SHARD_IDX hs)) cs \<and>
     p \<in> set (cs ! TABLE_IDX hs (capacity (g_shards st (SHARD_IDX hs))))"

text \<open>
  The example environment with an allocator that gives the first free address from 1 on,
  the state after \<open>grpc_slice_intern_init\<close> in it, and the interning of the byte sequences
  of \<open>n\<close> zero bytes for \<open>n = 0, 1, \<dots>\<close>: their hashes \<open>256 * n\<close> all belong to shard 0.
\<close>

definition ex_extern_many :: extern where
  "ex_extern_many =
     ex_extern\<lparr>gpr_malloc := (\<lambda>h. Suc (length (takeWhile (\<lambda>p. h p \<noteq> None) [1..<64])))\<rparr>"

definition ex_many_booted :: state where
  "ex_many_booted = grpc_slice_intern_init ex_extern_many 0 ex_power_on"

definition ex_nth_slice :: "nat \<Rightarrow> grpc_slice" where
  "ex_nth_slice n = ex_slice 0 (replicate n 0)"

definition ex_inserts :: "nat \<Rightarrow> op list" where
  "ex_inserts n = map (\<lambda>i. Intern (ex_nth_slice i)) [0..<n]"

text \<open>The state of shard 0 after the first \<open>n\<close> of these insertions.\<close>

definition ex_filled :: "nat \<Rightarrow> state \<Rightarrow> addr list list \<Rightarrow> bool" where
  "ex_filled n st cs \<longleftrightarrow>
     chains_ok (heap st) (g_shards st 0) cs \<and> count (g_shards st 0) = n \<and>
     capacity (g_shards st 0) = 8 \<and> dom (heap st) \<subseteq> {1..n} \<and>
     (\<forall>p r. heap st p = Some r \<longrightarrow> unat (interned_slice_refcount.hash r) < 256 * n) \<and>
     max_static_metadata_hash_probe st = 0"

text \<open>
  The seeded hash of static string \<open>i\<close>, and the state of the static table after
  \<open>grpc_slice_intern_init\<close> has placed the first \<open>m\<close> static strings: at most \<open>m\<close> slots are
  taken, the bound is less than the size of the table, and each of these strings is in
  the slot at some offset from its hash that is at most the bound.
\<close>

definition static_hash :: "extern \<Rightarrow> u32 \<Rightarrow> nat \<Rightarrow> u32" where
  "static_hash E seed i = gpr_murmur_hash3 E (content (grpc_static_slice_table E ! i)) seed"

definition placed :: "extern \<Rightarrow> u32 \<Rightarrow> state \<Rightarrow> nat \<Rightarrow> bool" where
  "placed E seed st i \<longleftrightarrow>
     (\<exists>j\<le>unat (max_static_metadata_hash_probe st). j < static_metadata_hash_size E \<and>
        static_metadata_hash st ((unat (static_hash E seed i) + j) mod static_metadata_hash_size E) =
          \<lparr>static_metadata_hash_ent.hash = static_hash E seed i, idx = of_nat i\<rparr>)"

definition built :: "extern \<Rightarrow> u32 \<Rightarrow> nat \<Rightarrow> state \<Rightarrow> bool" where
  "built E seed m st \<longleftrightarrow>
     g_hash_seed st = seed \<and>
     unat (max_static_metadata_hash_probe st) \<le> static_metadata_hash_size E \<and>
     card {s. s < static_metadata_hash_size E \<and>
              idx (static_metadata_hash st s) \<noteq> of_nat (GRPC_STATIC_MDSTR_COUNT E)} \<le> m \<and>
     (\<forall>i<m. placed E seed st i)"

text \<open>
  The state after \<open>grpc_slice_intern_init\<close> in the example environment, with one block of
  the four bytes 7, 7, 7, 1 and one reference in shard 0.
\<close>

definition ex_booted_sub :: state where
  "ex_booted_sub =
     ex_booted\<lparr>g_shards := (g_shards ex_booted)
                  (0 := \<lparr>strs = [Some 1, None, None, None, None, None, None, None], count = 1,
                         capacity = 8\<rparr>),
               heap := [1 \<mapsto> ex_block 1024 1 None [7, 7, 7, 1]]\<rparr>"

section \<open>Properties of the chains and of the loops\<close>

lemma same_blocks_refl: "same_blocks h h"
  by (simp add: same_blocks_def)

lemma same_blocks_trans: "same_blocks h h1 \<Longrightarrow> same_blocks h1 h2 \<Longrightarrow> same_blocks h h2"
  by (simp add: same_blocks_def)

lemma same_blocks_upd:
  "h p = Some r \<Longrightarrow> unlinked r' = unlinked r \<Longrightarrow> same_blocks h (h(p \<mapsto> r'))"
  by (simp add: same_blocks_def)

lemma set_concat_push:
  "i < length cs \<Longrightarrow> set (concat (cs[i := p # cs ! i])) = insert p (set (concat cs))"
  by (induction cs arbitrary: i) (auto split: nat.splits)

lemma distinct_concat_push:
  "i < length cs \<Longrightarrow> distinct (concat cs) \<Longrightarrow> p \<notin> set (concat cs) \<Longrightarrow>
   distinct (concat (cs[i := p # cs ! i]))"
  by (induction cs arbitrary: i)
     (auto split: nat.splits simp del: set_concat simp add: set_concat_push)

lemma is_chain_frame:
  "is_chain h s ps \<Longrightarrow> \<forall>p\<in>set ps. h' p = h p \<Longrightarrow> is_chain h' s ps"
  by (induction ps arbitrary: s) (auto split: option.splits)

lemma is_chain_upd:
  "is_chain h s ps \<Longrightarrow> p \<notin> set ps \<Longrightarrow> is_chain (h(p := x)) s ps"
  by (rule is_chain_frame) auto

lemma grow_chain:
  assumes "is_chain h s ps" and "distinct ps" and "set ps \<inter> set (concat cs) = {}"
    and "length strtab = cap" and "0 < cap" and "list_all2 (is_chain h) strtab cs"
    and "\<forall>p\<in>set ps. hash_of h p = hf p"
  shows "\<exists>h' strtab'. grow_shard_chain s h strtab cap = Some (Inr (h', strtab')) \<and>
           list_all2 (is_chain h') strtab' (fold (push_node hf cap) ps cs) \<and>
           (\<forall>q. q \<notin> set ps \<longrightarrow> h' q = h q) \<and> same_blocks h h'"
  using assms
proof (induction ps arbitrary: s h strtab cs)
  case Nil
  then show ?case
    by (subst grow_shard_chain.simps) (simp add: same_blocks_refl)
next
  case (Cons p ps)
  from Cons.prems(1) obtain r where s: "s = Some p" and r: "h p = Some r"
    and ch: "is_chain h (bucket_next r) ps"
    by (auto split: option.splits)
  define i where "i = TABLE_IDX (interned_slice_refcount.hash r) cap"
  define h1 where "h1 = h(p \<mapsto> r\<lparr>bucket_next := strtab ! i\<rparr>)"
  define strtab1 where "strtab1 = strtab[i := Some p]"
  define cs1 where "cs1 = push_node hf cap p cs"
  have hfp: "hf p = interned_slice_refcount.hash r"
    using Cons.prems(7) r by (simp add: hash_of_def)
  have i: "i < cap"
    using Cons.prems(5) by (simp add: i_def TABLE_IDX_def)
  have len: "length cs = cap"
    using Cons.prems(4,6) by (auto dest: list_all2_lengthD)
  have cs1: "cs1 = cs[i := p # cs ! i]"
    by (simp add: cs1_def push_node_def hfp i_def)
  have pnot: "p \<notin> set ps" "p \<notin> set (concat cs)"
    using Cons.prems(2,3) by auto
  have frame: "is_chain h1 x qs" if "is_chain h x qs" "p \<notin> set qs" for x qs
    unfolding h1_def using that by (rule is_chain_upd)
  have pj: "p \<notin> set (cs ! j)" if "j < cap" for j
    using pnot(2) that len by (auto simp: set_concat)
  have all2: "list_all2 (is_chain h1) strtab1 cs1"
    unfolding list_all2_conv_all_nth
  proof (intro conjI allI impI)
    show "length strtab1 = length cs1"
      by (simp add: strtab1_def cs1 Cons.prems(4) len)
  next
    fix j assume "j < length strtab1"
    then have j: "j < cap"
      by (simp add: strtab1_def Cons.prems(4))
    have old: "is_chain h (strtab ! j) (cs ! j)"
      using Cons.prems(6) j len by (simp add: list_all2_conv_all_nth)
    show "is_chain h1 (strtab1 ! j) (cs1 ! j)"
    proof (cases "j = i")
      case True
      have "is_chain h1 (strtab ! i) (cs ! i)"
        using old True pj [OF i] by (auto intro: frame)
      then show ?thesis
        using True i len Cons.prems(4) by (simp add: strtab1_def cs1 h1_def)
    next
      case False
      then show ?thesis
        using old pj [OF j] by (simp add: strtab1_def cs1 frame)
    qed
  qed
  have disj: "set ps \<inter> set (concat cs1) = {}"
  proof -
    have "set (concat cs1) = insert p (set (concat cs))"
      using i len set_concat_push [of i cs p] by (simp add: cs1 del: set_concat)
    then show ?thesis
      using Cons.prems(3) pnot(1) by auto
  qed
  have hf1: "\<forall>q\<in>set ps. hash_of h1 q = hf q"
    using Cons.prems(7) pnot(1) by (auto simp: h1_def hash_of_def)
  from Cons.IH [OF frame [OF ch pnot(1)] _ disj _ Cons.prems(5) all2 hf1]
  obtain h' strtab' where res: "grow_shard_chain (bucket_next r) h1 strtab1 cap = Some (Inr (h', strtab'))"
    and all2': "list_all2 (is_chain h') strtab' (fold (push_node hf cap) ps cs1)"
    and fr: "\<forall>q. q \<notin> set ps \<longrightarrow> h' q = h1 q" and sb: "same_blocks h1 h'"
    using Cons.prems(2,4) by (auto simp: strtab1_def)
  have sb1: "same_blocks h h1"
    unfolding h1_def using r by (rule same_blocks_upd) (simp add: unlinked_def)
  have "grow_shard_chain s h strtab cap = Some (Inr (h', strtab'))"
    using res s r by (subst grow_shard_chain.simps) (simp add: h1_def strtab1_def i_def)
  moreover have "\<forall>q. q \<notin> set (p # ps) \<longrightarrow> h' q = h q"
    using fr by (simp add: h1_def)
  ultimately show ?case
    using all2' same_blocks_trans [OF sb1 sb] by (auto simp: cs1_def)
qed

lemma length_concat_push:
  "i < length cs \<Longrightarrow> length (concat (cs[i := p # cs ! i])) = Suc (length (concat cs))"
  by (induction cs arbitrary: i) (auto split: nat.splits)

lemma TABLE_IDX_less: "0 < cap \<Longrightarrow> TABLE_IDX x cap < cap"
  by (simp add: TABLE_IDX_def)

lemma length_push_node: "length (push_node hf cap p cs) = length cs"
  by (simp add: push_node_def)

lemma length_fold_push: "length (fold (push_node hf cap) ps cs) = length cs"
  by (induction ps arbitrary: cs) (simp_all add: length_push_node)

lemma set_push_node:
  "length cs = cap \<Longrightarrow> 0 < cap \<Longrightarrow>
   set (concat (push_node hf cap p cs)) = insert p (set (concat cs))"
  unfolding push_node_def by (rule set_concat_push) (simp add: TABLE_IDX_less)

lemma set_fold_push:
  "length cs = cap \<Longrightarrow> 0 < cap \<Longrightarrow>
   set (concat (fold (push_node hf cap) ps cs)) = set ps \<union> set (concat cs)"
proof (induction ps arbitrary: cs)
  case Nil
  then show ?case by simp
next
  case (Cons p ps)
  have "set (concat (fold (push_node hf cap) ps (push_node hf cap p cs))) =
        set ps \<union> set (concat (push_node hf cap p cs))"
    using Cons.prems by (intro Cons.IH) (simp_all add: length_push_node)
  then show ?case
    using set_push_node [OF Cons.prems, of hf p] by (simp del: set_concat)
qed

lemma length_concat_fold_push:
  "length cs = cap \<Longrightarrow> 0 < cap \<Longrightarrow>
   length (concat (fold (push_node hf cap) ps cs)) = length ps + length (concat cs)"
proof (induction ps arbitrary: cs)
  case Nil
  then show ?case by simp
next
  case (Cons p ps)
  have "length (concat (push_node hf cap p cs)) = Suc (length (concat cs))"
    unfolding push_node_def using Cons.prems
    by (intro length_concat_push) (simp add: TABLE_IDX_less)
  moreover have "length (concat (fold (push_node hf cap) ps (push_node hf cap p cs))) =
        length ps + length (concat (push_node hf cap p cs))"
    using Cons.prems by (intro Cons.IH) (simp_all add: length_push_node)
  ultimately show ?case by simp
qed

lemma distinct_fold_push:
  "length cs = cap \<Longrightarrow> 0 < cap \<Longrightarrow> distinct ps \<Longrightarrow> distinct (concat cs) \<Longrightarrow>
   set ps \<inter> set (concat cs) = {} \<Longrightarrow> distinct (concat (fold (push_node hf cap) ps cs))"
proof (induction ps arbitrary: cs)
  case Nil
  then show ?case by simp
next
  case (Cons p ps)
  have d: "distinct (concat (push_node hf cap p cs))"
    unfolding push_node_def using Cons.prems
    by (intro distinct_concat_push) (auto simp: TABLE_IDX_less)
  have s: "set (concat (push_node hf cap p cs)) = insert p (set (concat cs))"
    using Cons.prems by (intro set_push_node)
  have "distinct (concat (fold (push_node hf cap) ps (push_node hf cap p cs)))"
  proof (rule Cons.IH)
    show "set ps \<inter> set (concat (push_node hf cap p cs)) = {}"
      unfolding s using Cons.prems(3,5) by auto
  qed (use Cons.prems d in \<open>simp_all add: length_push_node\<close>)
  then show ?case by simp
qed

lemma index_fold_push:
  "length cs = cap \<Longrightarrow> 0 < cap \<Longrightarrow>
   \<forall>j<cap. \<forall>q\<in>set (cs ! j). TABLE_IDX (hf q) cap = j \<Longrightarrow>
   \<forall>j<cap. \<forall>q\<in>set (fold (push_node hf cap) ps cs ! j). TABLE_IDX (hf q) cap = j"
proof (induction ps arbitrary: cs)
  case Nil
  then show ?case by simp
next
  case (Cons p ps)
  have "\<forall>j<cap. \<forall>q\<in>set (push_node hf cap p cs ! j). TABLE_IDX (hf q) cap = j"
  proof (intro allI impI ballI)
    fix j q
    assume j: "j < cap" and q: "q \<in> set (push_node hf cap p cs ! j)"
    show "TABLE_IDX (hf q) cap = j"
    proof (cases "j = TABLE_IDX (hf p) cap")
      case True
      then have "q = p \<or> q \<in> set (cs ! j)"
        using q j Cons.prems(1) by (auto simp: push_node_def)
      then show ?thesis
        using True j Cons.prems(3) by auto
    next
      case False
      then have "q \<in> set (cs ! j)"
        using q by (simp add: push_node_def)
      then show ?thesis
        using j Cons.prems(3) by auto
    qed
  qed
  then have "\<forall>j<cap. \<forall>q\<in>set (fold (push_node hf cap) ps (push_node hf cap p cs) ! j).
      TABLE_IDX (hf q) cap = j"
    using Cons.prems by (intro Cons.IH) (simp_all add: length_push_node)
  then show ?case by simp
qed

lemma same_blocks_hash_of: "same_blocks h h' \<Longrightarrow> hash_of h' p = hash_of h p"
  unfolding same_blocks_def hash_of_def
  apply (drule spec [of _ p])
  apply (auto split: option.splits simp: unlinked_def)
  apply (metis interned_slice_refcount.select_convs(3) interned_slice_refcount.surjective
      interned_slice_refcount.update_convs(4))
  done

lemma nth_subset_concat: "i < length cs \<Longrightarrow> set (cs ! i) \<subseteq> set (concat cs)"
  using nth_mem [of i cs] unfolding set_concat by blast

lemma grow_buckets:
  assumes "list_all2 (is_chain h) ss ocs" and "distinct (concat ocs)"
    and "set (concat ocs) \<inter> set (concat cs) = {}"
    and "length strtab = cap" and "0 < cap" and "list_all2 (is_chain h) strtab cs"
    and "\<forall>p\<in>set (concat ocs). hash_of h p = hf p"
  shows "\<exists>h' strtab'. grow_shard_buckets h strtab cap ss = Some (Inr (h', strtab')) \<and>
           list_all2 (is_chain h') strtab' (fold (push_node hf cap) (concat ocs) cs) \<and>
           (\<forall>q. q \<notin> set (concat ocs) \<longrightarrow> h' q = h q) \<and> same_blocks h h'"
  using assms
proof (induction ss arbitrary: ocs h strtab cs)
  case Nil
  then show ?case by (simp add: same_blocks_refl)
next
  case (Cons s ss)
  from Cons.prems(1) obtain oc ocs' where ocs: "ocs = oc # ocs'" and oc: "is_chain h s oc"
    and rest: "list_all2 (is_chain h) ss ocs'"
    by (auto simp: list_all2_Cons1)
  have len: "length cs = cap"
    using Cons.prems(4,6) by (auto dest: list_all2_lengthD)
  have doc: "distinct oc" "distinct (concat ocs')" "set oc \<inter> set (concat ocs') = {}"
    using Cons.prems(2) by (auto simp: ocs)
  have d0: "set oc \<inter> set (concat cs) = {}"
    using Cons.prems(3) by (auto simp: ocs)
  have hf0: "\<forall>p\<in>set oc. hash_of h p = hf p"
    using Cons.prems(7) by (simp add: ocs)
  have "\<exists>h' strtab'. grow_shard_chain s h strtab cap = Some (Inr (h', strtab')) \<and>
           list_all2 (is_chain h') strtab' (fold (push_node hf cap) oc cs) \<and>
           (\<forall>q. q \<notin> set oc \<longrightarrow> h' q = h q) \<and> same_blocks h h'"
    by (rule grow_chain [OF oc doc(1) d0 Cons.prems(4,5,6) hf0])
  then obtain h1 strtab1 where
    res1: "grow_shard_chain s h strtab cap = Some (Inr (h1, strtab1))"
    and all1: "list_all2 (is_chain h1) strtab1 (fold (push_node hf cap) oc cs)"
    and fr1: "\<forall>q. q \<notin> set oc \<longrightarrow> h1 q = h q" and sb1: "same_blocks h h1"
    by (elim exE conjE)
  have rest1: "list_all2 (is_chain h1) ss ocs'"
    unfolding list_all2_conv_all_nth
  proof (intro conjI allI impI)
    show "length ss = length ocs'"
      using rest by (rule list_all2_lengthD)
  next
    fix i assume i: "i < length ss"
    then have c: "is_chain h (ss ! i) (ocs' ! i)" and il: "i < length ocs'"
      using rest by (simp_all add: list_all2_conv_all_nth)
    from il have "set (ocs' ! i) \<subseteq> set (concat ocs')"
      by (rule nth_subset_concat)
    then have "\<forall>p\<in>set (ocs' ! i). h1 p = h p"
      using fr1 doc(3) by blast
    with c show "is_chain h1 (ss ! i) (ocs' ! i)"
      by (rule is_chain_frame)
  qed
  have "set (concat ocs') \<inter> set (concat cs) = {}"
    using Cons.prems(3) by (auto simp: ocs)
  then have disj1: "set (concat ocs') \<inter> set (concat (fold (push_node hf cap) oc cs)) = {}"
    unfolding set_fold_push [OF len Cons.prems(5)] using doc(3) by blast
  have len1: "length strtab1 = cap"
    using all1 len by (auto dest: list_all2_lengthD simp: length_fold_push)
  have hf1: "\<forall>p\<in>set (concat ocs'). hash_of h1 p = hf p"
    using Cons.prems(7) sb1 by (simp add: ocs same_blocks_hash_of)
  obtain h' strtab' where
    res: "grow_shard_buckets h1 strtab1 cap ss = Some (Inr (h', strtab'))"
    and all': "list_all2 (is_chain h') strtab'
        (fold (push_node hf cap) (concat ocs') (fold (push_node hf cap) oc cs))"
    and fr: "\<forall>q. q \<notin> set (concat ocs') \<longrightarrow> h' q = h1 q" and sb: "same_blocks h1 h'"
    using Cons.IH [OF rest1 doc(2) disj1 len1 Cons.prems(5) all1 hf1] by (elim exE conjE)
  have "grow_shard_buckets h strtab cap (s # ss) = Some (Inr (h', strtab'))"
    using res1 res by simp
  moreover have "\<forall>q. q \<notin> set (concat ocs) \<longrightarrow> h' q = h q"
    using fr fr1 by (simp add: ocs)
  ultimately show ?case
    using all' same_blocks_trans [OF sb1 sb] by (simp add: ocs)
qed

lemma grow_shard_ok:
  assumes "chains_ok h shard cs"
  shows "\<exists>h' strtab. grow_shard h shard =
             Some (Inr (h', shard\<lparr>strs := strtab, capacity := capacity shard * 2\<rparr>)) \<and>
           chains_ok h' (shard\<lparr>strs := strtab, capacity := capacity shard * 2\<rparr>)
             (relinked (hash_of h) (capacity shard * 2) cs) \<and>
           (\<forall>q. q \<notin> set (concat cs) \<longrightarrow> h' q = h q) \<and> same_blocks h h'"
proof -
  let ?cap = "capacity shard * 2"
  let ?hf = "hash_of h"
  have cap: "0 < ?cap" and len: "length (strs shard) = capacity shard"
    and all2: "list_all2 (is_chain h) (strs shard) cs" and d: "distinct (concat cs)"
    and cnt: "count shard = length (concat cs)"
    using assms by (auto simp: chains_ok_def)
  have e: "list_all2 (is_chain h) (replicate ?cap None) (replicate ?cap [])"
    by (simp add: list_all2_conv_all_nth)
  obtain h' strtab where
    res: "grow_shard_buckets h (replicate ?cap None) ?cap (strs shard) = Some (Inr (h', strtab))"
    and all': "list_all2 (is_chain h') strtab (fold (push_node ?hf ?cap) (concat cs) (replicate ?cap []))"
    and fr: "\<forall>q. q \<notin> set (concat cs) \<longrightarrow> h' q = h q" and sb: "same_blocks h h'"
    using grow_buckets [OF all2 d _ _ cap e, of ?hf] by auto
  let ?cs' = "relinked ?hf ?cap cs"
  have lcs': "length ?cs' = ?cap"
    by (simp add: relinked_def length_fold_push)
  have "length strtab = ?cap"
    using all' lcs' by (auto dest: list_all2_lengthD simp: relinked_def)
  moreover have "distinct (concat ?cs')"
    unfolding relinked_def using cap d by (intro distinct_fold_push) auto
  moreover have "length (concat ?cs') = length (concat cs)"
    unfolding relinked_def using cap by (subst length_concat_fold_push) auto
  moreover have "\<forall>j<?cap. \<forall>q\<in>set (?cs' ! j). TABLE_IDX (?hf q) ?cap = j"
    unfolding relinked_def using cap by (intro index_fold_push) auto
  ultimately have "chains_ok h' (shard\<lparr>strs := strtab, capacity := ?cap\<rparr>) ?cs'"
    using cap all' cnt lcs' sb by (simp add: chains_ok_def relinked_def same_blocks_hash_of)
  moreover have "grow_shard h shard = Some (Inr (h', shard\<lparr>strs := strtab, capacity := ?cap\<rparr>))"
    using res len by (simp add: grow_shard_def)
  ultimately show ?thesis
    using fr sb by blast
qed

lemma scan_chain:
  "is_chain h s ps \<Longrightarrow>
   grpc_slice_intern_scan s h hs sl =
     Some (Inr (case List.find (\<lambda>p. matches h hs sl p \<and> live h p) ps of
                  None \<Rightarrow> (h, None)
                | Some p \<Rightarrow> (add_ref h p, Some p)))"
proof (induction ps arbitrary: s)
  case Nil
  then show ?case
    by (subst grpc_slice_intern_scan.simps) simp
next
  case (Cons p ps)
  then obtain r where s: "s = Some p" and r: "h p = Some r" and ch: "is_chain h (bucket_next r) ps"
    by (auto split: option.splits)
  have upd: "h(p \<mapsto> r\<lparr>refcnt := 0\<rparr>) = h" if "refcnt r = 0"
    using that r by (auto simp: fun_eq_iff)
  show ?case
    using Cons.IH [OF ch] s r upd
    by (subst grpc_slice_intern_scan.simps)
       (auto simp: matches_def live_def add_ref_def gpr_atm_fetch_add_def gpr_atm_rel_cas_def
          grpc_slice_cmp_def materialize_def split: option.splits)
qed

lemma is_chain_links:
  "\<forall>q\<in>set ps. map_option bucket_next (h' q) = map_option bucket_next (h q) \<Longrightarrow>
   is_chain h' s ps = is_chain h s ps"
proof (induction ps arbitrary: s)
  case Nil
  then show ?case by simp
next
  case (Cons p ps)
  then have "map_option bucket_next (h' p) = map_option bucket_next (h p)"
    and IH: "\<And>s. is_chain h' s ps = is_chain h s ps"
    by auto
  then show ?case
    by (cases "h p"; cases "h' p") auto
qed

lemma hash_of_add_ref: "hash_of (add_ref h p) q = hash_of h q"
  by (auto simp: hash_of_def add_ref_def split: option.splits)

lemma is_chain_add_ref: "is_chain (add_ref h p) s ps = is_chain h s ps"
  by (rule is_chain_links) (auto simp: add_ref_def split: option.splits)

lemma chains_ok_add_ref: "chains_ok h shard cs \<Longrightarrow> chains_ok (add_ref h p) shard cs"
  unfolding chains_ok_def
  by (simp add: hash_of_add_ref list_all2_conv_all_nth is_chain_add_ref)

lemma chains_ok_all2: "chains_ok h shard cs \<Longrightarrow> list_all2 (is_chain h) (strs shard) cs"
  by (simp add: chains_ok_def)

lemma chains_ok_cap: "chains_ok h shard cs \<Longrightarrow> 0 < capacity shard"
  by (simp add: chains_ok_def)

lemma chains_ok_len: "chains_ok h shard cs \<Longrightarrow> length (strs shard) = capacity shard"
  by (simp add: chains_ok_def)

lemma chains_ok_length: "chains_ok h shard cs \<Longrightarrow> length cs = capacity shard"
  using chains_ok_all2 [THEN list_all2_lengthD] chains_ok_len by metis

lemma chains_ok_nth:
  assumes "chains_ok h shard cs" and "i < capacity shard"
  shows "is_chain h (strs shard ! i) (cs ! i)"
proof -
  have "i < length (strs shard)"
    using assms(2) chains_ok_len [OF assms(1)] by simp
  then show ?thesis
    using chains_ok_all2 [OF assms(1)] by (simp add: list_all2_conv_all_nth)
qed

lemma chains_ok_index:
  assumes "chains_ok h shard cs" and "i < capacity shard" and "p \<in> set (cs ! i)"
  shows "TABLE_IDX (hash_of h p) (capacity shard) = i"
proof -
  have "\<forall>i\<in>{0..<length cs}. \<forall>p\<in>set (cs ! i). TABLE_IDX (hash_of h p) (capacity shard) = i"
    using assms(1) by (simp add: chains_ok_def)
  moreover have "i \<in> {0..<length cs}"
    using assms(2) chains_ok_length [OF assms(1)] by simp
  ultimately show ?thesis
    using assms(3) by blast
qed

lemma in_concat_nth: "p \<in> set (concat cs) \<Longrightarrow> \<exists>i<length cs. p \<in> set (cs ! i)"
proof -
  assume "p \<in> set (concat cs)"
  then obtain xs where xs: "xs \<in> set cs" "p \<in> set xs"
    by auto
  from xs(1) obtain i where "i < length cs" "cs ! i = xs"
    by (meson in_set_conv_nth)
  with xs(2) show ?thesis
    by blast
qed

lemma is_chain_allocated: "is_chain h s ps \<Longrightarrow> p \<in> set ps \<Longrightarrow> h p \<noteq> None"
  by (induction ps arbitrary: s) (auto split: option.splits)

lemma chains_ok_allocated:
  assumes "chains_ok h shard cs" and "p \<in> set (concat cs)"
  shows "h p \<noteq> None"
proof -
  from in_concat_nth [OF assms(2)] obtain i where i: "i < length cs" "p \<in> set (cs ! i)"
    by (elim exE conjE)
  have "i < capacity shard"
    using i(1) chains_ok_length [OF assms(1)] by simp
  with assms(1) have "is_chain h (strs shard ! i) (cs ! i)"
    by (rule chains_ok_nth)
  then show ?thesis
    using i(2) by (rule is_chain_allocated)
qed

lemma locked_hit:
  assumes ok: "chains_ok h shard cs"
    and f: "List.find (\<lambda>q. matches h hs sl q \<and> live h q) (cs ! TABLE_IDX hs (capacity shard)) = Some p"
    and r: "h p = Some r"
  shows "grpc_slice_intern_locked E h shard hs sl = Some (Inr (add_ref h p, shard, materialize p r))"
proof -
  note cap = chains_ok_cap [OF ok] and len = chains_ok_len [OF ok]
  have i: "TABLE_IDX hs (capacity shard) < capacity shard"
    using cap by (rule TABLE_IDX_less)
  have sc: "grpc_slice_intern_scan (strs shard ! TABLE_IDX hs (capacity shard)) h hs sl =
        Some (Inr (add_ref h p, Some p))"
    unfolding scan_chain [OF chains_ok_nth [OF ok i]] f by simp
  have m: "materialize p (r\<lparr>refcnt := refcnt r + 1\<rparr>) = materialize p r"
    by (simp add: materialize_def)
  have a: "add_ref h p p = Some (r\<lparr>refcnt := refcnt r + 1\<rparr>)"
    using r by (simp add: add_ref_def)
  have c0: "capacity shard \<noteq> 0" using cap by simp
  have l0: "\<not> length (strs shard) \<le> TABLE_IDX hs (capacity shard)"
    using i len by simp
  show ?thesis
    by (simp only: grpc_slice_intern_locked_def sc c0 l0 a m if_False
          option.case sum.case prod.case)
qed

lemma find_unique:
  "p \<in> set xs \<Longrightarrow> P p \<Longrightarrow> \<forall>q\<in>set xs. P q \<longrightarrow> q = p \<Longrightarrow> List.find P xs = Some p"
proof (induction xs)
  case Nil
  then show ?case by simp
next
  case (Cons x xs)
  show ?case
  proof (cases "P x")
    case True
    then have "x = p"
      using Cons.prems(3) by simp
    then show ?thesis
      using True by simp
  next
    case False
    then have "p \<in> set xs"
      using Cons.prems(1,2) by auto
    then have "List.find P xs = Some p"
    proof (rule Cons.IH)
      show "P p" by (rule Cons.prems(2))
      show "\<forall>q\<in>set xs. P q \<longrightarrow> q = p"
        using Cons.prems(3) by simp
    qed
    then show ?thesis
      using False by simp
  qed
qed

lemma same_blocks_cases:
  assumes "same_blocks h h'"
  shows "(h p = None \<and> h' p = None) \<or>
         (\<exists>r r'. h p = Some r \<and> h' p = Some r' \<and> slen r' = slen r \<and> refcnt r' = refcnt r \<and>
            interned_slice_refcount.hash r' = interned_slice_refcount.hash r \<and>
            payload r' = payload r)"
proof -
  have e: "map_option unlinked (h p) = map_option unlinked (h' p)"
    using assms by (simp add: same_blocks_def)
  show ?thesis
  proof (cases "h p")
    case None
    then show ?thesis using e by simp
  next
    case (Some r)
    then obtain r' where r': "h' p = Some r'" and u: "unlinked r = unlinked r'"
      using e by (cases "h' p") auto
    have "slen (unlinked r) = slen (unlinked r')" "refcnt (unlinked r) = refcnt (unlinked r')"
      "interned_slice_refcount.hash (unlinked r) = interned_slice_refcount.hash (unlinked r')"
      "payload (unlinked r) = payload (unlinked r')"
      using u by simp_all
    then show ?thesis
      using Some r' by (simp add: unlinked_def)
  qed
qed

lemma same_blocks_matches: "same_blocks h h' \<Longrightarrow> matches h' hs sl p = matches h hs sl p"
  using same_blocks_cases [of h h' p] by (auto simp: matches_def)

lemma same_blocks_live: "same_blocks h h' \<Longrightarrow> live h' p = live h p"
  using same_blocks_cases [of h h' p] by (auto simp: live_def)

lemma same_blocks_content_of: "same_blocks h h' \<Longrightarrow> content_of h' p = content_of h p"
  using same_blocks_cases [of h h' p] by (auto simp: content_of_def)

lemma chains_ok_member:
  assumes "chains_ok h shard cs" and "p \<in> set (concat cs)"
  shows "p \<in> set (cs ! TABLE_IDX (hash_of h p) (capacity shard))"
proof -
  from in_concat_nth [OF assms(2)] obtain i where i: "i < length cs" "p \<in> set (cs ! i)"
    by (elim exE conjE)
  have "i < capacity shard"
    using i(1) chains_ok_length [OF assms(1)] by simp
  from chains_ok_index [OF assms(1) this i(2)] show ?thesis
    using i(2) by simp
qed

lemma set_relinked:
  "0 < cap \<Longrightarrow> set (concat (relinked hf cap cs)) = set (concat cs)"
  unfolding relinked_def
  by (subst set_fold_push) (simp_all del: set_concat)

lemma locked_lookup:
  assumes ok: "chains_ok h shard cs" and u: "unique_live h cs"
    and p: "p \<in> set (concat cs)" and r: "h p = Some r" and l: "refcnt r \<noteq> 0"
    and sl: "content sl = take (slen r) (payload r)"
  shows "grpc_slice_intern_locked E h shard (interned_slice_refcount.hash r) sl =
           Some (Inr (add_ref h p, shard, materialize p r))"
proof -
  let ?hs = "interned_slice_refcount.hash r"
  have hp: "hash_of h p = ?hs" and cp: "content_of h p = content sl"
    and lp: "live h p" and mp: "matches h ?hs sl p"
    using r l sl by (simp_all add: hash_of_def content_of_def live_def matches_def)
  have mem: "p \<in> set (cs ! TABLE_IDX ?hs (capacity shard))"
    using chains_ok_member [OF ok p] hp by simp
  have i: "TABLE_IDX ?hs (capacity shard) < length cs"
    using chains_ok_length [OF ok] TABLE_IDX_less [OF chains_ok_cap [OF ok]] by simp
  have uq: "\<forall>q\<in>set (cs ! TABLE_IDX ?hs (capacity shard)).
          matches h ?hs sl q \<and> live h q \<longrightarrow> q = p"
  proof (intro ballI impI)
    fix q
    assume q: "q \<in> set (cs ! TABLE_IDX ?hs (capacity shard))" and "matches h ?hs sl q \<and> live h q"
    then have "live h q" "hash_of h q = ?hs" "content_of h q = content sl"
      by (auto simp: matches_def hash_of_def content_of_def split: option.splits)
    moreover have "q \<in> set (concat cs)"
      using q nth_subset_concat [OF i] by blast
    ultimately show "q = p"
      using u p lp hp cp unfolding unique_live_def by metis
  qed
  have "List.find (\<lambda>q. matches h ?hs sl q \<and> live h q)
      (cs ! TABLE_IDX ?hs (capacity shard)) = Some p"
  proof (rule find_unique)
    show "p \<in> set (cs ! TABLE_IDX ?hs (capacity shard))"
      by (rule mem)
    show "matches h ?hs sl p \<and> live h p"
      using mp lp by (rule conjI)
    show "\<forall>q\<in>set (cs ! TABLE_IDX ?hs (capacity shard)).
          matches h ?hs sl q \<and> live h q \<longrightarrow> q = p"
      by (rule uq)
  qed
  from locked_hit [OF ok this r] show ?thesis .
qed

lemma unique_live_same_blocks:
  assumes "same_blocks h h'" and "set (concat cs') = set (concat cs)" and "unique_live h cs"
  shows "unique_live h' cs'"
  using assms(3) unfolding unique_live_def assms(2)
  by (simp only: same_blocks_live [OF assms(1)] same_blocks_hash_of [OF assms(1)]
        same_blocks_content_of [OF assms(1)])

lemma ex_chains_ok: "chains_ok ex_heap ex_shard ex_chains"
  by (auto simp: chains_ok_def ex_heap_def ex_shard_def ex_chains_def ex_block_def hash_of_def
        TABLE_IDX_def LOG2_SHARD_COUNT_def less_Suc_eq)

lemma ex_unique_live: "unique_live ex_heap ex_chains"
  by (simp add: unique_live_def ex_heap_def ex_chains_def ex_block_def hash_of_def live_def
        content_of_def)

lemma scan_miss:
  assumes "is_chain h s ps"
    and "List.find (\<lambda>q. matches h hs sl q \<and> live h q) ps = None"
  shows "grpc_slice_intern_scan s h hs sl = Some (Inr (h, None))"
  unfolding scan_chain [OF assms(1)] assms(2) by simp

lemma same_blocks_sym: "same_blocks h h' \<Longrightarrow> same_blocks h' h"
  by (simp add: same_blocks_def)

lemma chains_ok_insert:
  assumes ok: "chains_ok h shard cs" and fresh: "h s = None"
    and i: "i = TABLE_IDX hs (capacity shard)"
    and r: "interned_slice_refcount.hash r = hs" "bucket_next r = strs shard ! i"
  shows "chains_ok (h(s \<mapsto> r)) (shard\<lparr>strs := (strs shard)[i := Some s], count := count shard + 1\<rparr>)
           (cs[i := s # cs ! i])"
proof -
  note cap = chains_ok_cap [OF ok] and len = chains_ok_len [OF ok] and lcs = chains_ok_length [OF ok]
  have il: "i < capacity shard"
    unfolding i using cap by (rule TABLE_IDX_less)
  have snot: "s \<notin> set (concat cs)"
    using chains_ok_allocated [OF ok, of s] fresh by blast
  have frame: "is_chain (h(s \<mapsto> r)) x qs" if "is_chain h x qs" "s \<notin> set qs" for x qs
    using that by (rule is_chain_upd)
  have sj: "s \<notin> set (cs ! j)" if "j < capacity shard" for j
    using snot nth_subset_concat [of j cs] that lcs by auto
  have all2: "list_all2 (is_chain (h(s \<mapsto> r))) ((strs shard)[i := Some s]) (cs[i := s # cs ! i])"
    unfolding list_all2_conv_all_nth
  proof (intro conjI allI impI)
    show "length ((strs shard)[i := Some s]) = length (cs[i := s # cs ! i])"
      using len lcs by simp
  next
    fix j assume "j < length ((strs shard)[i := Some s])"
    then have j: "j < capacity shard"
      using len by simp
    have old: "is_chain (h(s \<mapsto> r)) (strs shard ! j) (cs ! j)"
      using chains_ok_nth [OF ok j] sj [OF j] by (rule frame)
    show "is_chain (h(s \<mapsto> r)) ((strs shard)[i := Some s] ! j) (cs[i := s # cs ! i] ! j)"
    proof (cases "j = i")
      case True
      then show ?thesis
        using old il len lcs r(2) by simp
    next
      case False
      then show ?thesis
        using old by simp
    qed
  qed
  have d: "distinct (concat (cs[i := s # cs ! i]))"
    using il lcs chains_ok_def ok snot by (intro distinct_concat_push) auto
  have c: "length (concat (cs[i := s # cs ! i])) = Suc (length (concat cs))"
    using il lcs by (intro length_concat_push) simp
  have cnt: "count shard = length (concat cs)"
    using ok by (simp add: chains_ok_def)
  have idx: "TABLE_IDX (hash_of (h(s \<mapsto> r)) p) (capacity shard) = j"
    if j: "j < capacity shard" and p: "p \<in> set (cs[i := s # cs ! i] ! j)" for j p
  proof (cases "p = s")
    case True
    then have "j = i"
      using p sj [OF j] j lcs by (cases "j = i") auto
    then show ?thesis
      using True r(1) i by (simp add: hash_of_def)
  next
    case False
    then have "p \<in> set (cs ! j)"
      using p j lcs by (cases "j = i") auto
    from chains_ok_index [OF ok j this] show ?thesis
      using False by (simp add: hash_of_def)
  qed
  show ?thesis
    unfolding chains_ok_def using cap len all2 d c cnt idx lcs by simp
qed

lemma materialize_new:
  "slen r = length (content sl) \<Longrightarrow> payload r = content sl \<Longrightarrow>
   materialize s r = \<lparr>refcount = Interned s, bytes = Payload s, content = content sl\<rparr>"
  by (simp add: materialize_def)

lemma locked_miss:
  assumes ok: "chains_ok h shard cs"
    and f: "List.find (\<lambda>q. matches h hs sl q \<and> live h q) (cs ! TABLE_IDX hs (capacity shard)) = None"
    and fresh: "h (gpr_malloc E h) = None"
  shows "\<exists>h' shard' cs'.
           grpc_slice_intern_locked E h shard hs sl =
             Some (Inr (h', shard',
               \<lparr>refcount = Interned (gpr_malloc E h), bytes = Payload (gpr_malloc E h),
                content = content sl\<rparr>)) \<and>
           chains_ok h' shard' cs' \<and>
           set (concat cs') = insert (gpr_malloc E h) (set (concat cs)) \<and>
           same_blocks (h(gpr_malloc E h \<mapsto> new_block hs sl None)) h' \<and>
           count shard' = count shard + 1 \<and>
           capacity shard' = (if count shard + 1 > capacity shard * 2 then capacity shard * 2
                              else capacity shard)"
proof -
  let ?s = "gpr_malloc E h"
  let ?i = "TABLE_IDX hs (capacity shard)"
  let ?r = "new_block hs sl (strs shard ! ?i)"
  let ?h1 = "h(?s \<mapsto> ?r)"
  let ?shard1 = "shard\<lparr>strs := (strs shard)[?i := Some ?s], count := count shard + 1\<rparr>"
  let ?cs1 = "cs[?i := ?s # cs ! ?i]"
  let ?res = "\<lparr>refcount = Interned ?s, bytes = Payload ?s, content = content sl\<rparr>"
  note cap = chains_ok_cap [OF ok] and len = chains_ok_len [OF ok] and lcs = chains_ok_length [OF ok]
  have il: "?i < capacity shard"
    using cap by (rule TABLE_IDX_less)
  have c0: "capacity shard \<noteq> 0" and l0: "\<not> length (strs shard) \<le> ?i"
    using cap il len by simp_all
  have sc: "grpc_slice_intern_scan (strs shard ! ?i) h hs sl = Some (Inr (h, None))"
    using chains_ok_nth [OF ok il] f by (rule scan_miss)
  have ok1: "chains_ok ?h1 ?shard1 ?cs1"
    using ok fresh by (rule chains_ok_insert) (simp_all add: new_block_def)
  have s1: "set (concat ?cs1) = insert ?s (set (concat cs))"
    using il lcs by (intro set_concat_push) simp
  have sb1: "same_blocks (h(?s \<mapsto> new_block hs sl None)) ?h1"
    by (simp add: same_blocks_def unlinked_def new_block_def)
  have lk: "grpc_slice_intern_locked E h shard hs sl = grpc_slice_intern_create E h shard hs sl ?i"
    by (simp only: grpc_slice_intern_locked_def sc c0 l0 if_False option.case sum.case prod.case)
  show ?thesis
  proof (cases "count shard + 1 > capacity shard * 2")
    case False
    have "grpc_slice_intern_create E h shard hs sl ?i = Some (Inr (?h1, ?shard1, ?res))"
      using False by (simp add: grpc_slice_intern_create_def Let_def new_block_def materialize_def)
    then show ?thesis
      using lk ok1 s1 sb1 False by (intro exI [of _ ?h1] exI [of _ ?shard1] exI [of _ ?cs1]) simp
  next
    case True
    from grow_shard_ok [OF ok1] obtain h2 strtab where
      g: "grow_shard ?h1 ?shard1 =
            Some (Inr (h2, ?shard1\<lparr>strs := strtab, capacity := capacity ?shard1 * 2\<rparr>))"
      and ok2: "chains_ok h2 (?shard1\<lparr>strs := strtab, capacity := capacity ?shard1 * 2\<rparr>)
                  (relinked (hash_of ?h1) (capacity ?shard1 * 2) ?cs1)"
      and sb2: "same_blocks ?h1 h2"
      by (elim exE conjE)
    let ?shard2 = "?shard1\<lparr>strs := strtab, capacity := capacity ?shard1 * 2\<rparr>"
    let ?cs2 = "relinked (hash_of ?h1) (capacity ?shard1 * 2) ?cs1"
    from same_blocks_cases [OF sb2, of ?s] obtain r2 where r2: "h2 ?s = Some r2"
      and f2: "slen r2 = length (content sl)" "payload r2 = content sl"
      by (auto simp: new_block_def)
    have m: "materialize ?s r2 = ?res"
      using f2 by (rule materialize_new)
    have "grpc_slice_intern_create E h shard hs sl ?i = Some (Inr (h2, ?shard2, ?res))"
      using True g r2 m by (simp add: grpc_slice_intern_create_def Let_def new_block_def)
    moreover have "set (concat ?cs2) = insert ?s (set (concat cs))"
      using set_relinked [of "capacity ?shard1 * 2" "hash_of ?h1" ?cs1] cap s1 by simp
    moreover have "same_blocks (h(?s \<mapsto> new_block hs sl None)) h2"
      using sb1 sb2 by (rule same_blocks_trans)
    ultimately show ?thesis
      using lk ok2 True by (intro exI [of _ h2] exI [of _ ?shard2] exI [of _ ?cs2]) simp
  qed
qed

lemma find_None_iff: "List.find P xs = None \<longleftrightarrow> (\<forall>x\<in>set xs. \<not> P x)"
  by (induction xs) simp_all

lemma find_after_miss:
  assumes ok: "chains_ok h shard cs"
    and f: "List.find (\<lambda>q. matches h hs sl q \<and> live h q) (cs ! TABLE_IDX hs (capacity shard)) = None"
    and fresh: "h s = None"
    and ok': "chains_ok h' shard' cs'"
    and s': "set (concat cs') = insert s (set (concat cs))"
    and sb: "same_blocks (h(s \<mapsto> new_block hs sl None)) h'"
  shows "List.find (\<lambda>q. matches h' hs sl q \<and> live h' q) (cs' ! TABLE_IDX hs (capacity shard')) = Some s"
proof (rule find_unique)
  let ?h1 = "h(s \<mapsto> new_block hs sl None)"
  have hs': "hash_of h' s = hs"
    using same_blocks_hash_of [OF sb, of s] by (simp add: hash_of_def new_block_def)
  have "s \<in> set (concat cs')"
    using s' by simp
  from chains_ok_member [OF ok' this] show "s \<in> set (cs' ! TABLE_IDX hs (capacity shard'))"
    using hs' by simp
  show "matches h' hs sl s \<and> live h' s"
    unfolding same_blocks_matches [OF sb] same_blocks_live [OF sb]
    by (simp add: matches_def live_def new_block_def)
  show "\<forall>q\<in>set (cs' ! TABLE_IDX hs (capacity shard')). matches h' hs sl q \<and> live h' q \<longrightarrow> q = s"
  proof (intro ballI impI, rule ccontr)
    fix q
    assume q: "q \<in> set (cs' ! TABLE_IDX hs (capacity shard'))"
      and ml: "matches h' hs sl q \<and> live h' q" and ne: "q \<noteq> s"
    have i': "TABLE_IDX hs (capacity shard') < length cs'"
      using chains_ok_length [OF ok'] TABLE_IDX_less [OF chains_ok_cap [OF ok']] by simp
    have "q \<in> set (concat cs')"
      using q nth_subset_concat [OF i'] by blast
    then have qc: "q \<in> set (concat cs)"
      using s' ne by (auto simp del: set_concat)
    have "matches ?h1 hs sl q \<and> live ?h1 q"
      using ml unfolding same_blocks_matches [OF sb] same_blocks_live [OF sb] .
    then have m: "matches h hs sl q" and l: "live h q"
      using ne by (simp_all add: matches_def live_def)
    then have "hash_of h q = hs"
      by (auto simp: matches_def hash_of_def split: option.splits)
    with chains_ok_member [OF ok qc] have "q \<in> set (cs ! TABLE_IDX hs (capacity shard))"
      by simp
    with f m l show False
      unfolding find_None_iff by blast
  qed
qed

lemma find_Some_D: "List.find P xs = Some x \<Longrightarrow> x \<in> set xs \<and> P x"
  by (induction xs) (auto split: if_splits)

lemma find_cong_set:
  "(\<And>x. x \<in> set xs \<Longrightarrow> P x = Q x) \<Longrightarrow> List.find P xs = List.find Q xs"
  by (induction xs) simp_all

lemma find_after_hit:
  assumes f: "List.find (\<lambda>q. matches h hs sl q \<and> live h q) xs = Some p"
    and n: "h p = Some r" "0 \<le> refcnt r"
  shows "List.find (\<lambda>q. matches (add_ref h p) hs sl q \<and> live (add_ref h p) q) xs = Some p"
proof -
  have "(matches (add_ref h p) hs sl q \<and> live (add_ref h p) q) = (matches h hs sl q \<and> live h q)"
    if "q \<in> set xs" for q
  proof (cases "q = p")
    case True
    have "live h p"
      using find_Some_D [OF f] by simp
    then show ?thesis
      using True n by (simp add: matches_def live_def add_ref_def)
  next
    case False
    then show ?thesis
      using n(1) by (simp add: matches_def live_def add_ref_def)
  qed
  then have "List.find (\<lambda>q. matches (add_ref h p) hs sl q \<and> live (add_ref h p) q) xs =
             List.find (\<lambda>q. matches h hs sl q \<and> live h q) xs"
    by (rule find_cong_set)
  then show ?thesis
    using f by simp
qed

lemma matches_content: "content a = content b \<Longrightarrow> matches h hs a = matches h hs b"
  by (auto simp: matches_def fun_eq_iff split: option.splits)

declare static_probe.simps [simp del]

declare init_insert.simps [simp del]

lemma hash_ok:
  assumes "slice_ok E st sl" and "\<not> grpc_is_static_metadata_string E sl"
  shows "grpc_slice_hash E st sl = Inr (gpr_murmur_hash3 E (content sl) (g_hash_seed st))"
proof (cases "refcount sl")
  case NULL
  then show ?thesis
    by (simp add: grpc_slice_hash_def grpc_slice_default_hash_impl_def)
next
  case (Interned p)
  then obtain r where r: "heap st p = Some r" and b: "block_ok E st r"
    and c: "bytes sl = Payload p \<longrightarrow> content sl = take (length (content sl)) (payload r)"
    using assms(1) by (auto simp: slice_ok_def split: option.splits)
  show ?thesis
  proof (cases "bytes sl = Payload p \<and> length (content sl) = slen r")
    case True
    then have "content sl = take (slen r) (payload r)"
      using c by simp
    then show ?thesis
      using Interned r b True
      by (simp add: grpc_slice_hash_def interned_slice_hash_def block_ok_def)
  next
    case False
    then show ?thesis
      using Interned r
      by (auto simp: grpc_slice_hash_def interned_slice_hash_def grpc_slice_default_hash_impl_def)
  qed
next
  case (Static n)
  then show ?thesis
    using assms by (simp add: slice_ok_def)
next
  case (Other n)
  then show ?thesis
    by (simp add: grpc_slice_hash_def grpc_slice_default_hash_impl_def)
qed

lemma static_probe_cong:
  assumes "static_metadata_hash st' = static_metadata_hash st"
    and "max_static_metadata_hash_probe st' = max_static_metadata_hash_probe st"
    and "content sl' = content sl"
  shows "static_probe E st' hs sl' i = static_probe E st hs sl i"
  using assms
proof (induction E st hs sl i rule: static_probe.induct)
  case (1 E st hs sl i)
  note assms = "1.prems"
  let ?ent = "static_metadata_hash st (unat (hs + i) mod static_metadata_hash_size E)"
  let ?hit = "static_metadata_hash_ent.hash ?ent = hs \<and>
            unat (idx ?ent) < GRPC_STATIC_MDSTR_COUNT E \<and>
            grpc_slice_cmp (grpc_static_slice_table E ! unat (idx ?ent)) sl = 0"
  have cmp: "grpc_slice_cmp t sl' = grpc_slice_cmp t sl" for t
    using assms(3) by (simp add: grpc_slice_cmp_def)
  show ?case
  proof (cases "i \<le> max_static_metadata_hash_probe st")
    case False
    then show ?thesis
      using assms(2)
      by (simp add: static_probe.simps [of E st hs sl i] static_probe.simps [of E st' hs sl' i] Let_def)
  next
    case le: True
    show ?thesis
    proof (cases ?hit)
      case True
      then show ?thesis
        using le assms(1,2) cmp
        by (simp add: static_probe.simps [of E st hs sl i] static_probe.simps [of E st' hs sl' i] Let_def)
    next
      case nohit: False
      show ?thesis
      proof (cases "i = - 1")
        case True
        then show ?thesis
          using le nohit assms(1,2) cmp
          by (simp add: static_probe.simps [of E st hs sl "- 1"]
                static_probe.simps [of E st' hs sl' "- 1"] Let_def)
      next
        case False
        have "static_probe E st' hs sl' (i + 1) = static_probe E st hs sl (i + 1)"
          using le nohit False assms by (intro "1.IH" [OF _ refl]) auto
        then show ?thesis
          using le nohit False assms(1,2) cmp
          by (auto simp: static_probe.simps [of E st hs sl i] static_probe.simps [of E st' hs sl' i] Let_def)
      qed
    qed
  qed
qed

lemma static_probe_total:
  assumes "max_static_metadata_hash_probe st \<noteq> - 1"
  shows "static_probe E st hs sl i \<noteq> None"
  using assms
proof (induction E st hs sl i rule: static_probe.induct)
  case (1 E st hs sl i)
  note assms = "1.prems"
  let ?ent = "static_metadata_hash st (unat (hs + i) mod static_metadata_hash_size E)"
  let ?hit = "static_metadata_hash_ent.hash ?ent = hs \<and>
            unat (idx ?ent) < GRPC_STATIC_MDSTR_COUNT E \<and>
            grpc_slice_cmp (grpc_static_slice_table E ! unat (idx ?ent)) sl = 0"
  show ?case
  proof (cases "i \<le> max_static_metadata_hash_probe st")
    case False
    then show ?thesis
      by (simp add: static_probe.simps [of E st hs sl i] Let_def)
  next
    case le: True
    have ne: "i \<noteq> - 1"
    proof
      assume "i = - 1"
      with le have "- 1 \<le> max_static_metadata_hash_probe st"
        by simp
      moreover have "max_static_metadata_hash_probe st \<le> - 1"
        by simp
      ultimately have "max_static_metadata_hash_probe st = - 1"
        by (rule antisym [rotated])
      with assms show False
        by simp
    qed
    show ?thesis
    proof (cases ?hit)
      case True
      then show ?thesis
        using le by (simp add: static_probe.simps [of E st hs sl i] Let_def)
    next
      case False
      have "static_probe E st hs sl (i + 1) \<noteq> None"
        using le False ne assms by (intro "1.IH" [OF _ refl]) auto
      then show ?thesis
        using le False ne by (auto simp: static_probe.simps [of E st hs sl i] Let_def)
    qed
  qed
qed

lemma intern_dynamic:
  assumes "\<not> grpc_is_static_metadata_string E sl" and "grpc_slice_hash E st sl = Inr hs"
    and "static_probe E st hs sl 0 = Some None"
    and "grpc_slice_intern_locked E (heap st) (g_shards st (SHARD_IDX hs)) hs sl =
           Some (Inr (h, shard, res))"
  shows "grpc_slice_intern E st sl = Some (Inr (locked_state st (SHARD_IDX hs) h shard, res))"
  using assms by (simp add: grpc_slice_intern_def locked_state_def)

lemma intern_static:
  assumes "\<not> grpc_is_static_metadata_string E sl" and "grpc_slice_hash E st sl = Inr hs"
    and "static_probe E st hs sl 0 = Some (Some t)"
  shows "grpc_slice_intern E st sl = Some (Inr (st, t))"
  using assms by (simp add: grpc_slice_intern_def)

lemma blocks_kept_add_ref: "blocks_kept h (add_ref h p)"
  by (auto simp: blocks_kept_def add_ref_def split: option.splits)

lemma blocks_kept_new:
  assumes "h s = None" and "same_blocks (h(s \<mapsto> r)) h'"
  shows "blocks_kept h h'"
  unfolding blocks_kept_def
proof
  fix p
  show "case h p of None \<Rightarrow> True
        | Some r \<Rightarrow> (case h' p of None \<Rightarrow> False
            | Some r' \<Rightarrow> slen r' = slen r \<and> payload r' = payload r \<and>
                interned_slice_refcount.hash r' = interned_slice_refcount.hash r)"
  proof (cases "h p")
    case None
    then show ?thesis by simp
  next
    case (Some x)
    then have "p \<noteq> s"
      using assms(1) by auto
    then show ?thesis
      using same_blocks_cases [OF assms(2), of p] Some by auto
  qed
qed

lemma slice_ok_kept:
  assumes "slice_ok E st sl" and "blocks_kept (heap st) (heap st')"
    and "g_hash_seed st' = g_hash_seed st"
  shows "slice_ok E st' sl"
proof (cases "refcount sl")
  case (Interned p)
  then obtain r where r: "heap st p = Some r" and b: "block_ok E st r"
    and c: "bytes sl = Payload p \<longrightarrow> content sl = take (length (content sl)) (payload r)"
    using assms(1) by (auto simp: slice_ok_def split: option.splits)
  from assms(2) have "case heap st p of None \<Rightarrow> True
        | Some r \<Rightarrow> (case heap st' p of None \<Rightarrow> False
            | Some r' \<Rightarrow> slen r' = slen r \<and> payload r' = payload r \<and>
                interned_slice_refcount.hash r' = interned_slice_refcount.hash r)"
    unfolding blocks_kept_def by (rule spec)
  with r obtain r' where "heap st' p = Some r'" "slen r' = slen r" "payload r' = payload r"
    "interned_slice_refcount.hash r' = interned_slice_refcount.hash r"
    by (auto split: option.splits)
  then show ?thesis
    using Interned b c assms(3) by (simp add: slice_ok_def block_ok_def)
qed (use assms(1) in \<open>simp_all add: slice_ok_def\<close>)

lemma locked_state_simps:
  "heap (locked_state st k h shard) = h"
  "g_shards (locked_state st k h shard) k = shard"
  "g_hash_seed (locked_state st k h shard) = g_hash_seed st"
  "static_metadata_hash (locked_state st k h shard) = static_metadata_hash st"
  "max_static_metadata_hash_probe (locked_state st k h shard) = max_static_metadata_hash_probe st"
  by (simp_all add: locked_state_def)

lemma intern_twice:
  assumes ok: "chains_ok (heap st) (g_shards st (SHARD_IDX hs)) cs"
    and hs: "hs = gpr_murmur_hash3 E (content a) (g_hash_seed st)"
    and cnt: "counted (heap st) cs"
    and oka: "slice_ok E st a" and okb: "slice_ok E st b"
    and ab: "content a = content b"
    and na: "\<not> grpc_is_static_metadata_string E a"
    and nb: "\<not> grpc_is_static_metadata_string E b"
    and mx: "max_static_metadata_hash_probe st \<noteq> - 1"
    and fresh: "heap st (gpr_malloc E (heap st)) = None"
  shows "\<exists>st1 st2. grpc_slice_intern E st a = Some (Inr (st1, canonical E st cs a)) \<and>
           grpc_slice_intern E st1 b = Some (Inr (st2, canonical E st cs a))"
proof -
  let ?k = "SHARD_IDX hs"
  let ?h = "heap st"
  let ?shard = "g_shards st ?k"
  let ?i = "TABLE_IDX hs (capacity ?shard)"
  let ?P = "\<lambda>q. matches ?h hs a q \<and> live ?h q"
  have ha: "grpc_slice_hash E st a = Inr hs"
    using hash_ok [OF oka na] hs by simp
  have hb: "grpc_slice_hash E st' b = Inr hs"
    if "blocks_kept ?h (heap st')" "g_hash_seed st' = g_hash_seed st" for st'
    using hash_ok [OF slice_ok_kept [OF okb that] nb] hs ab that(2) by simp
  have pb: "static_probe E st' hs b 0 = static_probe E st hs a 0"
    if "static_metadata_hash st' = static_metadata_hash st"
      "max_static_metadata_hash_probe st' = max_static_metadata_hash_probe st" for st'
    using that ab by (intro static_probe_cong) simp_all
  have kept_refl: "blocks_kept ?h ?h"
    by (auto simp: blocks_kept_def split: option.splits)
  from static_probe_total [OF mx, of E hs a 0] obtain y where y: "static_probe E st hs a 0 = Some y"
    by auto
  show ?thesis
  proof (cases y)
    case (Some t)
    have c: "canonical E st cs a = t"
      using y Some hs by (simp add: canonical_def)
    have "grpc_slice_intern E st a = Some (Inr (st, t))"
      using na ha y Some by (intro intern_static) simp_all
    moreover have "grpc_slice_intern E st b = Some (Inr (st, t))"
      using nb hb [OF kept_refl refl] pb [OF refl refl] y Some by (intro intern_static) simp_all
    ultimately show ?thesis
      unfolding c by blast
  next
    case None
    note miss = y [unfolded None]
    show ?thesis
    proof (cases "List.find ?P (cs ! ?i)")
      case (Some p)
      from find_Some_D [OF Some] obtain r where r: "?h p = Some r" and pin: "p \<in> set (cs ! ?i)"
        by (auto simp: matches_def split: option.splits)
      have c: "canonical E st cs a = materialize p r"
        using miss Some r hs by (simp add: canonical_def)
      have i: "?i < length cs"
        using chains_ok_length [OF ok] TABLE_IDX_less [OF chains_ok_cap [OF ok]] by simp
      have "p \<in> set (concat cs)"
        using pin nth_subset_concat [OF i] by blast
      then have nn: "0 \<le> refcnt r"
        using cnt r unfolding counted_def by (auto dest!: bspec)
      let ?st1 = "locked_state st ?k (add_ref ?h p) ?shard"
      have 1: "grpc_slice_intern E st a = Some (Inr (?st1, materialize p r))"
        using na ha miss locked_hit [OF ok Some r, of E] by (rule intern_dynamic)
      have ok1: "chains_ok (heap ?st1) (g_shards ?st1 ?k) cs"
        unfolding locked_state_simps using ok by (rule chains_ok_add_ref)
      have f1: "List.find (\<lambda>q. matches (heap ?st1) hs b q \<and> live (heap ?st1) q)
                  (cs ! TABLE_IDX hs (capacity (g_shards ?st1 ?k))) = Some p"
        unfolding locked_state_simps matches_content [OF ab, symmetric]
        using Some r nn by (rule find_after_hit)
      have r1: "heap ?st1 p = Some (r\<lparr>refcnt := refcnt r + 1\<rparr>)"
        unfolding locked_state_simps using r by (simp add: add_ref_def)
      have hb1: "grpc_slice_hash E ?st1 b = Inr hs"
        by (rule hb) (simp_all add: locked_state_simps blocks_kept_add_ref)
      have pb1: "static_probe E ?st1 hs b 0 = Some None"
        using pb [of ?st1] miss by (simp add: locked_state_simps)
      have "grpc_slice_intern E ?st1 b =
              Some (Inr (locked_state ?st1 ?k (add_ref (heap ?st1) p) (g_shards ?st1 ?k),
                         materialize p (r\<lparr>refcnt := refcnt r + 1\<rparr>)))"
        using nb hb1 pb1 locked_hit [OF ok1 f1 r1, of E] by (rule intern_dynamic)
      moreover have "materialize p (r\<lparr>refcnt := refcnt r + 1\<rparr>) = materialize p r"
        by (simp add: materialize_def)
      ultimately show ?thesis
        unfolding c using 1 by auto
    next
      case None
      let ?s = "gpr_malloc E ?h"
      let ?res = "\<lparr>refcount = Interned ?s, bytes = Payload ?s, content = content a\<rparr>"
      have c: "canonical E st cs a = ?res"
        using miss None hs by (simp add: canonical_def)
      from locked_miss [OF ok None fresh] obtain h' shard' cs' where
        lk: "grpc_slice_intern_locked E ?h ?shard hs a = Some (Inr (h', shard', ?res))"
        and ok': "chains_ok h' shard' cs'"
        and s': "set (concat cs') = insert ?s (set (concat cs))"
        and sb: "same_blocks (?h(?s \<mapsto> new_block hs a None)) h'"
        by (elim exE conjE)
      let ?st1 = "locked_state st ?k h' shard'"
      have 1: "grpc_slice_intern E st a = Some (Inr (?st1, ?res))"
        using na ha miss lk by (rule intern_dynamic)
      have ok1: "chains_ok (heap ?st1) (g_shards ?st1 ?k) cs'"
        unfolding locked_state_simps by (rule ok')
      have f1: "List.find (\<lambda>q. matches (heap ?st1) hs b q \<and> live (heap ?st1) q)
                  (cs' ! TABLE_IDX hs (capacity (g_shards ?st1 ?k))) = Some ?s"
        unfolding locked_state_simps matches_content [OF ab, symmetric]
        using ok None fresh ok' s' sb by (rule find_after_miss)
      from same_blocks_cases [OF sb, of ?s] obtain r2 where r2: "h' ?s = Some r2"
        and f2: "slen r2 = length (content a)" "payload r2 = content a"
        by (auto simp: new_block_def)
      have r1: "heap ?st1 ?s = Some r2"
        unfolding locked_state_simps by (rule r2)
      have kept: "blocks_kept ?h h'"
        using fresh sb by (rule blocks_kept_new)
      have hb1: "grpc_slice_hash E ?st1 b = Inr hs"
        by (rule hb) (simp_all add: locked_state_simps kept)
      have pb1: "static_probe E ?st1 hs b 0 = Some None"
        using pb [of ?st1] miss by (simp add: locked_state_simps)
      have "grpc_slice_intern E ?st1 b =
              Some (Inr (locked_state ?st1 ?k (add_ref (heap ?st1) ?s) (g_shards ?st1 ?k),
                         materialize ?s r2))"
        using nb hb1 pb1 locked_hit [OF ok1 f1 r1, of E] by (rule intern_dynamic)
      moreover have "materialize ?s r2 = ?res"
        using f2 by (rule materialize_new)
      ultimately show ?thesis
        unfolding c using 1 by auto
    qed
  qed
qed

lemma canonical_content:
  assumes "content a = content b"
  shows "canonical E st cs a = canonical E st cs b"
proof -
  have sp: "static_probe E st hs a 0 = static_probe E st hs b 0" for hs
    using assms by (intro static_probe_cong) simp_all
  show ?thesis
    unfolding canonical_def matches_content [OF assms] sp assms ..
qed

lemma ex_state_shard0: "g_shards ex_state 0 = ex_shard" and ex_state_heap: "heap ex_state = ex_heap"
  by (simp_all add: ex_state_def)

lemma ex_counted: "counted ex_heap ex_chains"
  by (simp add: counted_def ex_heap_def ex_chains_def ex_block_def)

lemma destroy_find_found:
  "is_chain h cur ps \<Longrightarrow> s \<in> set ps \<Longrightarrow>
   interned_slice_destroy_find cur prev h s = Some (Inr (link_of prev ps s))"
proof (induction ps arbitrary: cur prev)
  case Nil
  then show ?case by simp
next
  case (Cons p ps)
  from Cons.prems(1) obtain r where c: "cur = Some p" and r: "h p = Some r"
    and ch: "is_chain h (bucket_next r) ps"
    by (auto split: option.splits)
  show ?case
  proof (cases "p = s")
    case True
    then show ?thesis
      using c by (subst interned_slice_destroy_find.simps) simp
  next
    case False
    then have "s \<in> set ps"
      using Cons.prems(2) by simp
    from Cons.IH [OF ch this, of "Next p"] show ?thesis
      using c r False by (subst interned_slice_destroy_find.simps) simp
  qed
qed

lemma destroy_find_missing:
  "is_chain h cur ps \<Longrightarrow> s \<notin> set ps \<Longrightarrow>
   interned_slice_destroy_find cur prev h s = Some (Inl Invalid_pointer)"
proof (induction ps arbitrary: cur prev)
  case Nil
  then show ?case
    by (subst interned_slice_destroy_find.simps) simp
next
  case (Cons p ps)
  from Cons.prems(1) obtain r where c: "cur = Some p" and r: "h p = Some r"
    and ch: "is_chain h (bucket_next r) ps"
    by (auto split: option.splits)
  have "p \<noteq> s" "s \<notin> set ps"
    using Cons.prems(2) by auto
  from Cons.IH [OF ch this(2), of "Next p"] show ?case
    using c r \<open>p \<noteq> s\<close> by (subst interned_slice_destroy_find.simps) simp
qed

lemma is_chain_upd2:
  "is_chain h x qs \<Longrightarrow> a \<notin> set qs \<Longrightarrow> b \<notin> set qs \<Longrightarrow> is_chain (h(a := u, b := v)) x qs"
  by (rule is_chain_frame) auto

lemma unlink_first:
  assumes "is_chain h cur (s # ps)" and "distinct (s # ps)" and "h s = Some r"
  shows "link_of prev (s # ps) s = prev" and "is_chain (h(s := None)) (bucket_next r) ps"
proof -
  show "link_of prev (s # ps) s = prev"
    by simp
  have "is_chain h (bucket_next r) ps" "s \<notin> set ps"
    using assms by auto
  then show "is_chain (h(s := None)) (bucket_next r) ps"
    by (rule is_chain_upd)
qed

lemma unlink_inner:
  assumes "is_chain h cur ps" and "distinct ps" and "s \<in> set ps" and "h s = Some r"
    and "hd ps \<noteq> s"
  shows "\<exists>c rc. link_of prev ps s = Next c \<and> c \<in> set ps \<and> c \<noteq> s \<and> h c = Some rc \<and>
           is_chain ((h(c \<mapsto> rc\<lparr>bucket_next := bucket_next r\<rparr>))(s := None)) cur (remove1 s ps)"
  using assms
proof (induction ps arbitrary: cur prev)
  case Nil
  then show ?case by simp
next
  case (Cons p ps)
  from Cons.prems(1) obtain rp where c: "cur = Some p" and rp: "h p = Some rp"
    and ch: "is_chain h (bucket_next rp) ps"
    by (auto split: option.splits)
  have ps: "p \<noteq> s" "s \<in> set ps" "p \<notin> set ps" "distinct ps"
    using Cons.prems by auto
  show ?case
  proof (cases "hd ps = s")
    case True
    then obtain ps' where ps': "ps = s # ps'"
      using ps(2) by (cases ps) auto
    have n: "bucket_next rp = Some s" and ch': "is_chain h (bucket_next r) ps'"
      using ch Cons.prems(4) by (auto simp: ps')
    have "p \<notin> set ps'" "s \<notin> set ps'"
      using ps(3,4) by (auto simp: ps')
    with ch' have "is_chain (h(p := Some (rp\<lparr>bucket_next := bucket_next r\<rparr>), s := None))
        (bucket_next r) ps'"
      by (rule is_chain_upd2)
    then have X: "is_chain ((h(p \<mapsto> rp\<lparr>bucket_next := bucket_next r\<rparr>))(s := None)) cur
        (remove1 s (p # ps))"
      using ps(1) c by (simp add: ps')
    show ?thesis
    proof (intro exI conjI)
      show "link_of prev (p # ps) s = Next p"
        using ps(1) by (simp add: ps')
      show "p \<in> set (p # ps)"
        by simp
      show "p \<noteq> s" "h p = Some rp"
        by fact+
      show "is_chain ((h(p \<mapsto> rp\<lparr>bucket_next := bucket_next r\<rparr>))(s := None)) cur
        (remove1 s (p # ps))"
        by (rule X)
    qed
  next
    case False
    from Cons.IH [OF ch ps(4) ps(2) Cons.prems(4) False, of "Next p"]
    obtain c' rc where l: "link_of (Next p) ps s = Next c'" and c': "c' \<in> set ps" "c' \<noteq> s"
      "h c' = Some rc"
      and ch': "is_chain ((h(c' \<mapsto> rc\<lparr>bucket_next := bucket_next r\<rparr>))(s := None))
          (bucket_next rp) (remove1 s ps)"
      by (elim exE conjE)
    have "p \<noteq> c'"
      using c'(1) ps(3) by auto
    then have X: "is_chain ((h(c' \<mapsto> rc\<lparr>bucket_next := bucket_next r\<rparr>))(s := None)) cur
        (remove1 s (p # ps))"
      using ch' ps(1) c rp by simp
    show ?thesis
    proof (intro exI conjI)
      show "link_of prev (p # ps) s = Next c'"
        using ps(1) l by simp
      show "c' \<in> set (p # ps)"
        using c'(1) by simp
      show "c' \<noteq> s" "h c' = Some rc"
        by fact+
      show "is_chain ((h(c' \<mapsto> rc\<lparr>bucket_next := bucket_next r\<rparr>))(s := None)) cur
        (remove1 s (p # ps))"
        by (rule X)
    qed
  qed
qed

lemma chains_disjoint_less:
  "distinct (concat cs) \<Longrightarrow> i < j \<Longrightarrow> j < length cs \<Longrightarrow> set (cs ! i) \<inter> set (cs ! j) = {}"
proof (induction cs arbitrary: i j)
  case Nil
  then show ?case by simp
next
  case (Cons c cs)
  obtain j' where j: "j = Suc j'" "j' < length cs"
    using Cons.prems(2,3) by (cases j) auto
  show ?case
  proof (cases i)
    case 0
    have "set (cs ! j') \<subseteq> set (concat cs)"
      using j(2) by (rule nth_subset_concat)
    moreover have "set c \<inter> set (concat cs) = {}"
      using Cons.prems(1) by (simp del: set_concat)
    ultimately show ?thesis
      using 0 j(1) by auto
  next
    case (Suc i')
    have "set (cs ! i') \<inter> set (cs ! j') = {}"
      using Cons.prems j Suc by (intro Cons.IH) auto
    then show ?thesis
      using Suc j(1) by simp
  qed
qed

lemma chains_disjoint:
  assumes "distinct (concat cs)" and "i \<noteq> j" and "i < length cs" and "j < length cs"
  shows "set (cs ! i) \<inter> set (cs ! j) = {}"
proof (cases "i < j")
  case True
  with assms show ?thesis
    by (intro chains_disjoint_less)
next
  case False
  then have "j < i"
    using assms(2) by simp
  with assms have "set (cs ! j) \<inter> set (cs ! i) = {}"
    by (intro chains_disjoint_less)
  then show ?thesis
    by blast
qed

lemma distinct_nth_concat: "distinct (concat cs) \<Longrightarrow> i < length cs \<Longrightarrow> distinct (cs ! i)"
  by (induction cs arbitrary: i) (auto simp: nth_Cons split: nat.splits)

lemma set_concat_remove1:
  "i < length cs \<Longrightarrow> set (concat (cs[i := remove1 s (cs ! i)])) \<subseteq> set (concat cs)"
proof (induction cs arbitrary: i)
  case Nil
  then show ?case by simp
next
  case (Cons c cs)
  show ?case
  proof (cases i)
    case 0
    then show ?thesis
      using set_remove1_subset [of s c] by auto
  next
    case (Suc i')
    then have "set (concat (cs[i' := remove1 s (cs ! i')])) \<subseteq> set (concat cs)"
      using Cons.prems by (intro Cons.IH) simp
    then show ?thesis
      using Suc by (auto simp del: set_concat)
  qed
qed

lemma distinct_concat_remove1:
  "distinct (concat cs) \<Longrightarrow> i < length cs \<Longrightarrow> distinct (concat (cs[i := remove1 s (cs ! i)]))"
proof (induction cs arbitrary: i)
  case Nil
  then show ?case by simp
next
  case (Cons c cs)
  have d: "distinct c" "distinct (concat cs)" "set c \<inter> set (concat cs) = {}"
    using Cons.prems(1) by (simp_all del: set_concat)
  show ?case
  proof (cases i)
    case 0
    have "set (remove1 s c) \<subseteq> set c"
      by (rule set_remove1_subset)
    then show ?thesis
      using 0 d by (auto simp del: set_concat)
  next
    case (Suc i')
    then have i': "i' < length cs"
      using Cons.prems(2) by simp
    have "distinct (concat (cs[i' := remove1 s (cs ! i')]))"
      using d(2) i' by (rule Cons.IH)
    moreover have "set (concat (cs[i' := remove1 s (cs ! i')])) \<subseteq> set (concat cs)"
      using i' by (rule set_concat_remove1)
    ultimately show ?thesis
      using Suc d by (auto simp del: set_concat)
  qed
qed

lemma length_concat_remove1:
  "i < length cs \<Longrightarrow> s \<in> set (cs ! i) \<Longrightarrow>
   length (concat (cs[i := remove1 s (cs ! i)])) = length (concat cs) - 1"
proof (induction cs arbitrary: i)
  case Nil
  then show ?case by simp
next
  case (Cons c cs)
  show ?case
  proof (cases i)
    case 0
    then have "s \<in> set c"
      using Cons.prems(2) by simp
    then have "length (remove1 s c) = length c - 1" and "0 < length c"
      by (auto simp: length_remove1 length_pos_if_in_set)
    then obtain n where "length c = Suc n" "length (remove1 s c) = n"
      by (cases "length c") auto
    then show ?thesis
      using 0 by simp
  next
    case (Suc i')
    then have i': "i' < length cs" "s \<in> set (cs ! i')"
      using Cons.prems by simp_all
    then have "length (concat (cs[i' := remove1 s (cs ! i')])) = length (concat cs) - 1"
      by (rule Cons.IH)
    moreover have "0 < length (concat cs)"
      using i' nth_subset_concat [OF i'(1)] by (metis length_pos_if_in_set subsetD)
    then obtain n where "length (concat cs) = Suc n"
      by (cases "length (concat cs)") auto
    ultimately show ?thesis
      using Suc by simp
  qed
qed

lemma chains_ok_remove:
  assumes ok: "chains_ok h shard cs" and i: "i < capacity shard" and s: "s \<in> set (cs ! i)"
    and fr: "\<forall>q. q \<notin> set (cs ! i) \<longrightarrow> h' q = h q"
    and hf: "\<forall>q. q \<noteq> s \<longrightarrow> hash_of h' q = hash_of h q"
    and ch: "is_chain h' x (remove1 s (cs ! i))"
  shows "chains_ok h' (shard\<lparr>strs := (strs shard)[i := x], count := count shard - 1\<rparr>)
           (cs[i := remove1 s (cs ! i)])"
proof -
  note cap = chains_ok_cap [OF ok] and len = chains_ok_len [OF ok] and lcs = chains_ok_length [OF ok]
  have d: "distinct (concat cs)" and cnt: "count shard = length (concat cs)"
    using ok by (simp_all add: chains_ok_def)
  have il: "i < length cs"
    using i lcs by simp
  have di: "distinct (cs ! i)"
    using d il by (rule distinct_nth_concat)
  have all2: "list_all2 (is_chain h') ((strs shard)[i := x]) (cs[i := remove1 s (cs ! i)])"
    unfolding list_all2_conv_all_nth
  proof (intro conjI allI impI)
    show "length ((strs shard)[i := x]) = length (cs[i := remove1 s (cs ! i)])"
      using len lcs by simp
  next
    fix j assume "j < length ((strs shard)[i := x])"
    then have j: "j < capacity shard"
      using len by simp
    show "is_chain h' ((strs shard)[i := x] ! j) (cs[i := remove1 s (cs ! i)] ! j)"
    proof (cases "j = i")
      case True
      then show ?thesis
        using ch i len lcs by simp
    next
      case False
      have "set (cs ! i) \<inter> set (cs ! j) = {}"
        using d False il j lcs by (intro chains_disjoint) auto
      then have "\<forall>q\<in>set (cs ! j). h' q = h q"
        using fr by blast
      with chains_ok_nth [OF ok j] have "is_chain h' (strs shard ! j) (cs ! j)"
        by (rule is_chain_frame)
      then show ?thesis
        using False by simp
    qed
  qed
  have d': "distinct (concat (cs[i := remove1 s (cs ! i)]))"
    using d il by (rule distinct_concat_remove1)
  have c': "length (concat (cs[i := remove1 s (cs ! i)])) = length (concat cs) - 1"
    using il s by (rule length_concat_remove1)
  have idx: "TABLE_IDX (hash_of h' q) (capacity shard) = j"
    if j: "j < capacity shard" and q: "q \<in> set (cs[i := remove1 s (cs ! i)] ! j)" for j q
  proof -
    have "q \<in> set (cs ! j) \<and> q \<noteq> s"
    proof (cases "j = i")
      case True
      then have "q \<in> set (remove1 s (cs ! i))"
        using q il by simp
      then show ?thesis
        using True di by auto
    next
      case False
      then have qj: "q \<in> set (cs ! j)"
        using q by simp
      have "set (cs ! i) \<inter> set (cs ! j) = {}"
        using d False il j lcs by (intro chains_disjoint) auto
      then show ?thesis
        using qj s by auto
    qed
    then show ?thesis
      using chains_ok_index [OF ok j, of q] hf by simp
  qed
  show ?thesis
    unfolding chains_ok_def using cap len all2 d' c' cnt idx lcs by simp
qed

lemma destroy_locked_ok:
  assumes ok: "chains_ok h shard cs" and s: "s \<in> set (concat cs)" and r: "h s = Some r"
    and z: "refcnt r = 0" and cnt: "count shard < 2 ^ 64"
  shows "\<exists>h' shard'.
           interned_slice_destroy_locked h shard s = Some (Inr (h', shard')) \<and>
           chains_ok h' shard'
             (cs[TABLE_IDX (interned_slice_refcount.hash r) (capacity shard) :=
                   remove1 s (cs ! TABLE_IDX (interned_slice_refcount.hash r) (capacity shard))]) \<and>
           h' s = None \<and> count shard' = count shard - 1 \<and> capacity shard' = capacity shard \<and>
           (\<forall>q. q \<noteq> s \<longrightarrow> map_option unlinked (h' q) = map_option unlinked (h q))"
proof -
  let ?i = "TABLE_IDX (interned_slice_refcount.hash r) (capacity shard)"
  let ?ps = "cs ! ?i"
  note cap = chains_ok_cap [OF ok] and len = chains_ok_len [OF ok] and lcs = chains_ok_length [OF ok]
  have il: "?i < capacity shard"
    using cap by (rule TABLE_IDX_less)
  have c0: "capacity shard \<noteq> 0" and l0: "\<not> length (strs shard) \<le> ?i" and z0: "\<not> refcnt r \<noteq> 0"
    using cap il len z by simp_all
  have hs: "hash_of h s = interned_slice_refcount.hash r"
    using r by (simp add: hash_of_def)
  have sin: "s \<in> set ?ps"
    using chains_ok_member [OF ok s] hs by simp
  have ch: "is_chain h (strs shard ! ?i) ?ps"
    using ok il by (rule chains_ok_nth)
  have d: "distinct ?ps"
    using ok il lcs by (intro distinct_nth_concat) (simp_all add: chains_ok_def)
  have fd: "interned_slice_destroy_find (strs shard ! ?i) (Head ?i) h s =
              Some (Inr (link_of (Head ?i) ?ps s))"
    using ch sin by (rule destroy_find_found)
  have c1: "(count shard + 2 ^ 64 - 1) mod 2 ^ 64 = count shard - 1"
  proof -
    have "0 < length (concat cs)"
      using s by (rule length_pos_if_in_set)
    moreover have "count shard = length (concat cs)"
      using ok by (simp add: chains_ok_def)
    ultimately have "0 < count shard"
      by simp
    then obtain n where n: "count shard = Suc n"
      by (cases "count shard") auto
    then have "(count shard + 2 ^ 64 - 1) = n + 2 ^ 64" "n < 2 ^ 64"
      using cnt by simp_all
    then show ?thesis
      using n by simp
  qed
  show ?thesis
  proof (cases "hd ?ps = s")
    case True
    then obtain ps' where ps': "?ps = s # ps'"
      using sin by (cases ?ps) auto
    have lk: "link_of (Head ?i) ?ps s = Head ?i"
      by (simp add: ps')
    have ch': "is_chain (h(s := None)) (bucket_next r) (remove1 s ?ps)"
      using unlink_first(2) [OF ch [unfolded ps'] d [unfolded ps'] r] by (simp add: ps')
    let ?h' = "h(s := None)"
    let ?shard' = "shard\<lparr>strs := (strs shard)[?i := bucket_next r], count := count shard - 1\<rparr>"
    have res: "interned_slice_destroy_locked h shard s = Some (Inr (?h', ?shard'))"
      by (simp only: interned_slice_destroy_locked_def r fd lk c1 c0 l0 z0 if_False
            option.case sum.case link.case)
    have "chains_ok ?h' ?shard' (cs[?i := remove1 s ?ps])"
      using ok il sin _ _ ch' by (rule chains_ok_remove) (use sin in \<open>auto simp: hash_of_def\<close>)
    then show ?thesis
      using res by (intro exI [of _ ?h'] exI [of _ ?shard']) simp
  next
    case False
    from unlink_inner [OF ch d sin r False, of "Head ?i"]
    obtain c rc where lk: "link_of (Head ?i) ?ps s = Next c" and c: "c \<in> set ?ps" "c \<noteq> s"
      "h c = Some rc"
      and ch': "is_chain ((h(c \<mapsto> rc\<lparr>bucket_next := bucket_next r\<rparr>))(s := None))
          (strs shard ! ?i) (remove1 s ?ps)"
      by (elim exE conjE)
    let ?h' = "(h(c \<mapsto> rc\<lparr>bucket_next := bucket_next r\<rparr>))(s := None)"
    let ?shard' = "shard\<lparr>count := count shard - 1\<rparr>"
    have res: "interned_slice_destroy_locked h shard s = Some (Inr (?h', ?shard'))"
      by (simp only: interned_slice_destroy_locked_def r fd lk c1 c0 l0 z0 if_False c(3)
            option.case sum.case link.case)
    have "chains_ok ?h' (shard\<lparr>strs := (strs shard)[?i := strs shard ! ?i],
              count := count shard - 1\<rparr>) (cs[?i := remove1 s ?ps])"
      using ok il sin _ _ ch'
      by (rule chains_ok_remove) (use sin c in \<open>auto simp: hash_of_def\<close>)
    then have "chains_ok ?h' ?shard' (cs[?i := remove1 s ?ps])"
      by simp
    moreover have "\<forall>q. q \<noteq> s \<longrightarrow> map_option unlinked (?h' q) = map_option unlinked (h q)"
      using c(3) by (simp add: unlinked_def)
    ultimately show ?thesis
      using res by (intro exI [of _ ?h'] exI [of _ ?shard']) simp
  qed
qed

lemma destroy_locked_missing:
  assumes ok: "chains_ok h shard cs" and r: "h s = Some r" and z: "refcnt r = 0"
    and s: "s \<notin> set (cs ! TABLE_IDX (interned_slice_refcount.hash r) (capacity shard))"
  shows "interned_slice_destroy_locked h shard s = Some (Inl Invalid_pointer)"
proof -
  let ?i = "TABLE_IDX (interned_slice_refcount.hash r) (capacity shard)"
  note cap = chains_ok_cap [OF ok] and len = chains_ok_len [OF ok]
  have il: "?i < capacity shard"
    using cap by (rule TABLE_IDX_less)
  have c0: "capacity shard \<noteq> 0" and l0: "\<not> length (strs shard) \<le> ?i" and z0: "\<not> refcnt r \<noteq> 0"
    using cap il len z by simp_all
  have fd: "interned_slice_destroy_find (strs shard ! ?i) (Head ?i) h s = Some (Inl Invalid_pointer)"
    using chains_ok_nth [OF ok il] s by (rule destroy_find_missing)
  show ?thesis
    by (simp only: interned_slice_destroy_locked_def r fd c0 l0 z0 if_False
          option.case sum.case)
qed

lemma chains_ok_refcnt:
  assumes "chains_ok h shard cs" and "h s = Some r"
  shows "chains_ok (h(s \<mapsto> r\<lparr>refcnt := n\<rparr>)) shard cs"
proof -
  have c: "is_chain (h(s \<mapsto> r\<lparr>refcnt := n\<rparr>)) x ps = is_chain h x ps" for x ps
    by (rule is_chain_links) (use assms(2) in auto)
  have "hash_of (h(s \<mapsto> r\<lparr>refcnt := n\<rparr>)) q = hash_of h q" for q
    using assms(2) by (simp add: hash_of_def)
  then show ?thesis
    using assms(1) unfolding chains_ok_def by (simp add: list_all2_conv_all_nth c)
qed

lemma unlinked_live:
  "map_option unlinked (h' q) = map_option unlinked (h q) \<Longrightarrow> live h' q = live h q"
proof -
  assume a: "map_option unlinked (h' q) = map_option unlinked (h q)"
  show ?thesis
  proof (cases "h q")
    case None
    then show ?thesis
      using a by (simp add: live_def)
  next
    case (Some r)
    then obtain r' where r': "h' q = Some r'" "unlinked r' = unlinked r"
      using a by (cases "h' q") auto
    have "refcnt (unlinked r') = refcnt (unlinked r)"
      using r'(2) by simp
    then show ?thesis
      using Some r'(1) by (simp add: live_def unlinked_def)
  qed
qed

lemma unref_last:
  assumes ok: "chains_ok (heap st) (g_shards st (SHARD_IDX (interned_slice_refcount.hash r))) cs"
    and r: "heap st s = Some r" and one: "refcnt r = 1"
    and cnt: "count (g_shards st (SHARD_IDX (interned_slice_refcount.hash r))) < 2 ^ 64"
    and s: "s \<in> set (concat cs)"
  shows "\<exists>st'. interned_slice_unref st s = Some (Inr st') \<and> heap st' s = None \<and>
           chains_ok (heap st') (g_shards st' (SHARD_IDX (interned_slice_refcount.hash r)))
             (cs[TABLE_IDX (interned_slice_refcount.hash r)
                   (capacity (g_shards st (SHARD_IDX (interned_slice_refcount.hash r)))) :=
                 remove1 s (cs ! TABLE_IDX (interned_slice_refcount.hash r)
                   (capacity (g_shards st (SHARD_IDX (interned_slice_refcount.hash r)))))]) \<and>
           count (g_shards st' (SHARD_IDX (interned_slice_refcount.hash r))) =
             count (g_shards st (SHARD_IDX (interned_slice_refcount.hash r))) - 1 \<and>
           trace st' = trace st @ [Mu_lock (SHARD_IDX (interned_slice_refcount.hash r)),
                                   Mu_unlock (SHARD_IDX (interned_slice_refcount.hash r))] \<and>
           (\<forall>q. q \<noteq> s \<longrightarrow> live (heap st') q = live (heap st) q)"
proof -
  let ?k = "SHARD_IDX (interned_slice_refcount.hash r)"
  let ?r0 = "r\<lparr>refcnt := 0\<rparr>"
  let ?h1 = "(heap st)(s \<mapsto> ?r0)"
  let ?st1 = "st\<lparr>heap := ?h1\<rparr>"
  have fa: "gpr_atm_fetch_add (heap st) s (- 1) = Inr (?h1, 1)"
    using r one by (simp add: gpr_atm_fetch_add_def)
  have u: "interned_slice_unref st s = interned_slice_destroy ?st1 s"
    by (simp add: interned_slice_unref_def fa)
  have ok1: "chains_ok ?h1 (g_shards st ?k) cs"
    using ok r by (rule chains_ok_refcnt)
  have r1: "?h1 s = Some ?r0" and z: "refcnt ?r0 = 0"
    and hr: "interned_slice_refcount.hash ?r0 = interned_slice_refcount.hash r"
    by simp_all
  from destroy_locked_ok [OF ok1 s r1 z cnt] obtain h' shard' where
    d: "interned_slice_destroy_locked ?h1 (g_shards st ?k) s = Some (Inr (h', shard'))"
    and ok': "chains_ok h' shard'
             (cs[TABLE_IDX (interned_slice_refcount.hash r) (capacity (g_shards st ?k)) :=
                   remove1 s (cs ! TABLE_IDX (interned_slice_refcount.hash r)
                     (capacity (g_shards st ?k)))])"
    and f: "h' s = None" "count shard' = count (g_shards st ?k) - 1"
    and l: "\<forall>q. q \<noteq> s \<longrightarrow> map_option unlinked (h' q) = map_option unlinked (?h1 q)"
    unfolding hr by (elim exE conjE)
  let ?st' = "st\<lparr>heap := ?h1, g_shards := (g_shards st)(?k := shard'), heap := h',
                trace := trace st @ [Mu_lock ?k, Mu_unlock ?k]\<rparr>"
  have "interned_slice_destroy ?st1 s = Some (Inr ?st')"
    using d by (simp add: interned_slice_destroy_def)
  moreover have "live h' q = live (heap st) q" if "q \<noteq> s" for q
  proof -
    have "map_option unlinked (h' q) = map_option unlinked (heap st q)"
      using l that by simp
    then show ?thesis
      by (rule unlinked_live)
  qed
  ultimately show ?thesis
    using u ok' f by (intro exI [of _ ?st']) simp
qed

lemma unref_missing:
  assumes ok: "chains_ok (heap st) (g_shards st (SHARD_IDX (interned_slice_refcount.hash r))) cs"
    and r: "heap st s = Some r" and one: "refcnt r = 1"
    and s: "s \<notin> set (cs ! TABLE_IDX (interned_slice_refcount.hash r)
                   (capacity (g_shards st (SHARD_IDX (interned_slice_refcount.hash r)))))"
  shows "interned_slice_unref st s = Some (Inl Invalid_pointer)"
proof -
  let ?k = "SHARD_IDX (interned_slice_refcount.hash r)"
  let ?r0 = "r\<lparr>refcnt := 0\<rparr>"
  let ?h1 = "(heap st)(s \<mapsto> ?r0)"
  let ?st1 = "st\<lparr>heap := ?h1\<rparr>"
  have fa: "gpr_atm_fetch_add (heap st) s (- 1) = Inr (?h1, 1)"
    using r one by (simp add: gpr_atm_fetch_add_def)
  have u: "interned_slice_unref st s = interned_slice_destroy ?st1 s"
    by (simp add: interned_slice_unref_def fa)
  have ok1: "chains_ok ?h1 (g_shards st ?k) cs"
    using ok r by (rule chains_ok_refcnt)
  have r1: "?h1 s = Some ?r0" and z: "refcnt ?r0 = 0"
    and hr: "interned_slice_refcount.hash ?r0 = interned_slice_refcount.hash r"
    by simp_all
  have s': "s \<notin> set (cs ! TABLE_IDX (interned_slice_refcount.hash ?r0)
                   (capacity (g_shards st ?k)))"
    using s by simp
  have "interned_slice_destroy_locked ?h1 (g_shards st ?k) s = Some (Inl Invalid_pointer)"
    using ok1 r1 z s' by (rule destroy_locked_missing)
  then show ?thesis
    unfolding u by (simp add: interned_slice_destroy_def)
qed

lemma ex_stray_chains_ok: "chains_ok (heap ex_state_stray) (g_shards ex_state_stray 0) ex_chains"
  by (auto simp: chains_ok_def ex_state_stray_def ex_state_def ex_heap_def ex_shard_def
        ex_chains_def ex_block_def hash_of_def TABLE_IDX_def LOG2_SHARD_COUNT_def less_Suc_eq)


lemma static_probe_hit:
  "static_probe E st hs sl i = Some (Some t) \<Longrightarrow>
   t \<in> set (grpc_static_slice_table E) \<and> content t = content sl"
proof (induction E st hs sl i rule: static_probe.induct)
  case (1 E st hs sl i)
  let ?ent = "static_metadata_hash st (unat (hs + i) mod static_metadata_hash_size E)"
  let ?hit = "static_metadata_hash_ent.hash ?ent = hs \<and>
            unat (idx ?ent) < GRPC_STATIC_MDSTR_COUNT E \<and>
            grpc_slice_cmp (grpc_static_slice_table E ! unat (idx ?ent)) sl = 0"
  have le: "i \<le> max_static_metadata_hash_probe st"
    using "1.prems" by (cases "i \<le> max_static_metadata_hash_probe st")
      (simp_all add: static_probe.simps [of E st hs sl i])
  show ?case
  proof (cases ?hit)
    case True
    then have "t = grpc_static_slice_table E ! unat (idx ?ent)"
      using "1.prems" le by (simp add: static_probe.simps [of E st hs sl i] Let_def)
    then show ?thesis
      using True
      by (auto simp: GRPC_STATIC_MDSTR_COUNT_def grpc_slice_cmp_def split: if_splits)
  next
    case False
    have ne: "i \<noteq> - 1"
      using "1.prems" le False by (auto simp: static_probe.simps [of E st hs sl i] Let_def)
    have "static_probe E st hs sl (i + 1) = Some (Some t)"
      using "1.prems" le False ne by (auto simp: static_probe.simps [of E st hs sl i] Let_def)
    then show ?thesis
      using le False ne by (intro "1.IH" [OF _ refl]) auto
  qed
qed


lemma shard_step_refl: "shard_step shard shard"
  by (simp add: shard_step_def)

lemma grow_shard_shape:
  "grow_shard h shard = Some (Inr (h', shard')) \<Longrightarrow>
   capacity shard' = capacity shard * 2 \<and> count shard' = count shard"
  by (auto simp: grow_shard_def Let_def split: if_splits option.splits sum.splits)

lemma create_shape:
  assumes "grpc_slice_intern_create E h shard hs sl i = Some (Inr (h', shard', res))"
  shows "count shard' = count shard + 1 \<and>
         capacity shard' =
           (if count shard + 1 > capacity shard * 2 then capacity shard * 2 else capacity shard)"
proof (cases "count shard + 1 > capacity shard * 2")
  case True
  let ?h1 = "h(gpr_malloc E h \<mapsto> \<lparr>slen = length (content sl), refcnt = 1, hash = hs,
                         bucket_next = strs shard ! i, payload = content sl\<rparr>)"
  let ?shard1 = "shard\<lparr>strs := (strs shard)[i := Some (gpr_malloc E h)], count := count shard + 1\<rparr>"
  from assms True obtain h2 where "grow_shard ?h1 ?shard1 = Some (Inr (h2, shard'))"
    by (auto simp: grpc_slice_intern_create_def Let_def split: option.splits sum.splits)
  from grow_shard_shape [OF this] show ?thesis
    using True by simp
next
  case False
  with assms show ?thesis
    by (auto simp: grpc_slice_intern_create_def Let_def split: option.splits sum.splits)
qed

lemma locked_shape:
  assumes "grpc_slice_intern_locked E h shard hs sl = Some (Inr (h', shard', res))"
  shows "shard_step shard shard'"
proof -
  have cap: "0 < capacity shard"
    using assms by (auto simp: grpc_slice_intern_locked_def split: if_splits)
  let ?i = "TABLE_IDX hs (capacity shard)"
  show ?thesis
  proof (cases "grpc_slice_intern_scan (strs shard ! ?i) h hs sl")
    case None
    then show ?thesis
      using assms cap by (simp add: grpc_slice_intern_locked_def split: if_splits)
  next
    case (Some a)
    show ?thesis
    proof (cases a)
      case (Inl e)
      then show ?thesis
        using assms cap Some by (simp add: grpc_slice_intern_locked_def split: if_splits)
    next
      case (Inr b)
      obtain h1 found where b: "b = (h1, found)"
        by (cases b)
      show ?thesis
      proof (cases found)
        case None
        then have "grpc_slice_intern_create E h1 shard hs sl ?i = Some (Inr (h', shard', res))"
          using assms cap Some Inr b
          by (simp add: grpc_slice_intern_locked_def split: if_splits)
        from create_shape [OF this] show ?thesis
          using cap by (simp add: shard_step_def)
      next
        case (Some s)
        then have "shard' = shard"
          using assms cap \<open>grpc_slice_intern_scan (strs shard ! ?i) h hs sl = Some a\<close> Inr b
          by (auto simp: grpc_slice_intern_locked_def split: if_splits option.splits)
        then show ?thesis
          by (simp add: shard_step_refl)
      qed
    qed
  qed
qed

lemma dec_not_succ: "(c + 2 ^ 64 - 1) mod 2 ^ 64 \<noteq> c + (1::nat)"
proof
  assume a: "(c + 2 ^ 64 - 1) mod 2 ^ 64 = c + 1"
  have "(c + 2 ^ 64 - 1) mod 2 ^ 64 < (2 ^ 64 :: nat)"
    by simp
  then have c: "c + 1 < 2 ^ 64"
    using a by simp
  show False
  proof (cases c)
    case 0
    then show ?thesis using a by simp
  next
    case (Suc n)
    then have "(c + 2 ^ 64 - 1) mod 2 ^ 64 = (n + 2 ^ 64) mod 2 ^ 64"
      by simp
    also have "\<dots> = n"
      using c Suc by simp
    finally show ?thesis
      using a Suc by simp
  qed
qed

lemma destroy_locked_shape:
  assumes "interned_slice_destroy_locked h shard s = Some (Inr (h', shard'))"
  shows "shard_step shard shard'"
proof -
  have "capacity shard' = capacity shard \<and> count shard' = (count shard + 2 ^ 64 - 1) mod 2 ^ 64"
    using assms
    by (auto simp: interned_slice_destroy_locked_def
          split: option.splits if_splits sum.splits link.splits)
  then show ?thesis
    using dec_not_succ [of "count shard"] by (simp add: shard_step_def)
qed

lemma intern_shape:
  assumes "grpc_slice_intern E st sl = Some (Inr (st', res))"
  shows "shard_step (g_shards st k) (g_shards st' k)"
proof (cases "grpc_is_static_metadata_string E sl")
  case True
  with assms show ?thesis
    by (simp add: grpc_slice_intern_def shard_step_refl)
next
  case False
  with assms obtain hs where hs: "grpc_slice_hash E st sl = Inr hs"
    by (auto simp: grpc_slice_intern_def split: sum.splits)
  show ?thesis
  proof (cases "static_probe E st hs sl 0")
    case None
    with assms False hs show ?thesis
      by (simp add: grpc_slice_intern_def)
  next
    case (Some a)
    show ?thesis
    proof (cases a)
      case (Some t)
      with assms False hs \<open>static_probe E st hs sl 0 = Some a\<close> show ?thesis
        by (auto simp: grpc_slice_intern_def shard_step_refl)
    next
      case None
      with assms False hs \<open>static_probe E st hs sl 0 = Some a\<close>
      obtain h shard where
        l: "grpc_slice_intern_locked E (heap st) (g_shards st (SHARD_IDX hs)) hs sl =
              Some (Inr (h, shard, res))"
        and st': "st' = st\<lparr>g_shards := (g_shards st)(SHARD_IDX hs := shard), heap := h,
                      trace := trace st @ [Mu_lock (SHARD_IDX hs), Mu_unlock (SHARD_IDX hs)]\<rparr>"
        by (auto simp: grpc_slice_intern_def split: option.splits sum.splits)
      from locked_shape [OF l] show ?thesis
        by (simp add: st' shard_step_refl)
    qed
  qed
qed

lemma destroy_shape:
  assumes "interned_slice_destroy st s = Some (Inr st')"
  shows "shard_step (g_shards st k) (g_shards st' k)"
proof -
  from assms obtain r h shard where
    r: "heap st s = Some r"
    and l: "interned_slice_destroy_locked (heap st)
              (g_shards st (SHARD_IDX (interned_slice_refcount.hash r))) s = Some (Inr (h, shard))"
    and st': "g_shards st' = (g_shards st)(SHARD_IDX (interned_slice_refcount.hash r) := shard)"
    by (auto simp: interned_slice_destroy_def split: option.splits sum.splits)
  from destroy_locked_shape [OF l] show ?thesis
    by (simp add: st' shard_step_refl)
qed

lemma unref_shape:
  assumes "interned_slice_unref st s = Some (Inr st')"
  shows "shard_step (g_shards st k) (g_shards st' k)"
proof -
  from assms obtain h old where f: "gpr_atm_fetch_add (heap st) s (- 1) = Inr (h, old)"
    by (auto simp: interned_slice_unref_def split: sum.splits)
  show ?thesis
  proof (cases "old = 1")
    case True
    with assms f have "interned_slice_destroy (st\<lparr>heap := h\<rparr>) s = Some (Inr st')"
      by (simp add: interned_slice_unref_def)
    from destroy_shape [OF this] show ?thesis
      by simp
  next
    case False
    with assms f show ?thesis
      by (auto simp: interned_slice_unref_def shard_step_refl)
  qed
qed

lemma slice_unref_shape:
  assumes "grpc_slice_unref st sl = Some (Inr st')"
  shows "shard_step (g_shards st k) (g_shards st' k)"
  using assms unref_shape [of st _ st' k]
  by (auto simp: grpc_slice_unref_def shard_step_refl split: refcount_ptr.splits)

lemma static_intern_shape:
  assumes "grpc_slice_static_intern E st sl = Some (Inr (st', res))"
  shows "shard_step (g_shards st k) (g_shards st' k)"
proof (cases "grpc_is_static_metadata_string E sl")
  case True
  with assms show ?thesis
    by (simp add: grpc_slice_static_intern_def shard_step_refl)
next
  case False
  with assms obtain hs where hs: "grpc_slice_hash E st sl = Inr hs"
    by (auto simp: grpc_slice_static_intern_def split: sum.splits)
  show ?thesis
  proof (cases "static_probe E st hs sl 0")
    case None
    with assms False hs show ?thesis
      by (simp add: grpc_slice_static_intern_def)
  next
    case (Some a)
    show ?thesis
    proof (cases a)
      case None
      with assms False hs \<open>static_probe E st hs sl 0 = Some a\<close> show ?thesis
        by (auto simp: grpc_slice_static_intern_def shard_step_refl)
    next
      case (Some t)
      with assms False hs \<open>static_probe E st hs sl 0 = Some a\<close>
      have "grpc_slice_unref st sl = Some (Inr st')"
        by (auto simp: grpc_slice_static_intern_def split: option.splits sum.splits)
      then show ?thesis
        by (rule slice_unref_shape)
    qed
  qed
qed

lemma ref_shape:
  assumes "interned_slice_ref st s = Inr st'"
  shows "shard_step (g_shards st k) (g_shards st' k)"
  using assms
  by (auto simp: interned_slice_ref_def shard_step_refl split: sum.splits if_splits)

lemma op_step_shape:
  assumes "op_step E st x = Some (Inr st')"
  shows "shard_step (g_shards st k) (g_shards st' k)"
proof (cases x)
  case (Intern sl)
  with assms obtain res where "grpc_slice_intern E st sl = Some (Inr (st', res))"
    by (auto simp: op_step_def split: option.splits sum.splits)
  then show ?thesis
    by (rule intern_shape)
next
  case (Static_intern sl)
  with assms obtain res where "grpc_slice_static_intern E st sl = Some (Inr (st', res))"
    by (auto simp: op_step_def split: option.splits sum.splits)
  then show ?thesis
    by (rule static_intern_shape)
next
  case (Ref s)
  with assms show ?thesis
    by (simp add: op_step_def ref_shape)
next
  case (Unref s)
  with assms show ?thesis
    by (simp add: op_step_def unref_shape)
qed

lemma shard_step_mono: "shard_step shard shard' \<Longrightarrow> capacity shard \<le> capacity shard'"
  by (auto simp: shard_step_def)

lemma shard_step_power:
  assumes "shard_step shard shard'" and "capacity shard = INITIAL_SHARD_CAPACITY * 2 ^ n"
  shows "\<exists>m. capacity shard' = INITIAL_SHARD_CAPACITY * 2 ^ m"
proof (cases "capacity shard' = capacity shard")
  case True
  with assms(2) show ?thesis
    by auto
next
  case False
  with assms(1) have "capacity shard' = capacity shard * 2"
    by (auto simp: shard_step_def split: if_splits)
  with assms(2) have "capacity shard' = INITIAL_SHARD_CAPACITY * 2 ^ Suc n"
    by simp
  then show ?thesis ..
qed

lemma shard_step_grows:
  assumes "shard_step shard shard'"
  shows "(capacity shard' \<noteq> capacity shard) =
           (count shard' = count shard + 1 \<and> 2 * capacity shard < count shard')"
    and "capacity shard' \<noteq> capacity shard \<Longrightarrow> capacity shard' = 2 * capacity shard"
  using assms by (auto simp: shard_step_def split: if_splits)

lemma run_mono:
  assumes "run E st xs = Some (Inr st')"
  shows "capacity (g_shards st k) \<le> capacity (g_shards st' k)"
  using assms
proof (induction xs arbitrary: st)
  case Nil
  then show ?case
    by simp
next
  case (Cons x xs)
  from Cons.prems obtain st1 where
    s: "op_step E st x = Some (Inr st1)" and r: "run E st1 xs = Some (Inr st')"
    by (auto split: option.splits sum.splits)
  from shard_step_mono [OF op_step_shape [OF s]] Cons.IH [OF r] show ?case
    by (rule le_trans)
qed

lemma run_power:
  assumes "run E st xs = Some (Inr st')"
    and "capacity (g_shards st k) = INITIAL_SHARD_CAPACITY * 2 ^ n"
  shows "\<exists>m. capacity (g_shards st' k) = INITIAL_SHARD_CAPACITY * 2 ^ m"
  using assms
proof (induction xs arbitrary: st n)
  case Nil
  then show ?case
    by auto
next
  case (Cons x xs)
  from Cons.prems(1) obtain st1 where
    s: "op_step E st x = Some (Inr st1)" and r: "run E st1 xs = Some (Inr st')"
    by (auto split: option.splits sum.splits)
  from shard_step_power [OF op_step_shape [OF s] Cons.prems(2)]
  obtain m where "capacity (g_shards st1 k) = INITIAL_SHARD_CAPACITY * 2 ^ m" ..
  from Cons.IH [OF r this] show ?case .
qed

lemma init_shards_fold:
  "g_shards (fold init_shard [0..<n] st) k =
     (if k < n then \<lparr>strs = replicate INITIAL_SHARD_CAPACITY None, count = 0,
                      capacity = INITIAL_SHARD_CAPACITY\<rparr>
      else g_shards st k)"
  by (induction n) (auto simp: init_shard_def)

lemma init_clear_fold: "g_shards (fold (init_clear_slot E) is st) = g_shards st"
  by (induction "is" arbitrary: st) (auto simp: init_clear_slot_def)

lemma init_insert_shards: "g_shards (init_insert E st i j) = g_shards st"
proof (induction E st i j rule: init_insert.induct)
  case (1 E st i j)
  show ?case
  proof (cases "j < static_metadata_hash_size E")
    case False
    then show ?thesis
      by (simp add: init_insert.simps [of E st i j])
  next
    case True
    show ?thesis
    proof (cases "idx (static_metadata_hash st
                   (((unat (static_metadata_hash_values st i) + j) mod 2 ^ 64)
                      mod static_metadata_hash_size E)) = of_nat (GRPC_STATIC_MDSTR_COUNT E)")
      case t: True
      with True show ?thesis
        by (simp add: init_insert.simps [of E st i j] Let_def)
    next
      case f: False
      with True have "init_insert E st i j = init_insert E st i (j + 1)"
        by (simp add: init_insert.simps [of E st i j] Let_def)
      with "1.IH" [OF True refl f] show ?thesis
        by simp
    qed
  qed
qed

lemma init_static_fold: "g_shards (fold (init_static_string E) is st) = g_shards st"
  by (induction "is" arbitrary: st) (auto simp: init_static_string_def init_insert_shards)

lemma init_shards:
  "g_shards (grpc_slice_intern_init E now st) k =
     (if k < SHARD_COUNT then \<lparr>strs = replicate INITIAL_SHARD_CAPACITY None, count = 0,
                                capacity = INITIAL_SHARD_CAPACITY\<rparr>
      else g_shards st k)"
  by (simp add: grpc_slice_intern_init_def Let_def init_static_fold init_clear_fold
        init_shards_fold)

lemma init_insert_free:
  assumes "j < static_metadata_hash_size E"
    and "idx (static_metadata_hash st
           (((unat (static_metadata_hash_values st i) + j) mod 2 ^ 64)
              mod static_metadata_hash_size E)) = of_nat (GRPC_STATIC_MDSTR_COUNT E)"
  shows "init_insert E st i j =
     st\<lparr>static_metadata_hash := (static_metadata_hash st)
           (((unat (static_metadata_hash_values st i) + j) mod 2 ^ 64)
              mod static_metadata_hash_size E :=
              \<lparr>static_metadata_hash_ent.hash = static_metadata_hash_values st i,
               idx = of_nat i\<rparr>),
        max_static_metadata_hash_probe :=
          (if j > unat (max_static_metadata_hash_probe st) then of_nat j
           else max_static_metadata_hash_probe st)\<rparr>"
  using assms by (simp add: init_insert.simps [of E st i j] Let_def)

lemma init_insert_taken:
  assumes "j < static_metadata_hash_size E"
    and "idx (static_metadata_hash st
           (((unat (static_metadata_hash_values st i) + j) mod 2 ^ 64)
              mod static_metadata_hash_size E)) \<noteq> of_nat (GRPC_STATIC_MDSTR_COUNT E)"
  shows "init_insert E st i j = init_insert E st i (Suc j)"
  using assms by (simp add: init_insert.simps [of E st i j] Let_def)

lemma static_probe_end:
  "\<not> i \<le> max_static_metadata_hash_probe st \<Longrightarrow> static_probe E st hs sl i = Some None"
  by (simp add: static_probe.simps [of E st hs sl i])

lemma static_probe_next:
  assumes "i \<le> max_static_metadata_hash_probe st" and "i \<noteq> - 1"
    and "\<not> (static_metadata_hash_ent.hash
              (static_metadata_hash st (unat (hs + i) mod static_metadata_hash_size E)) = hs \<and>
            unat (idx (static_metadata_hash st (unat (hs + i) mod static_metadata_hash_size E)))
              < GRPC_STATIC_MDSTR_COUNT E \<and>
            grpc_slice_cmp
              (grpc_static_slice_table E !
                 unat (idx (static_metadata_hash st
                   (unat (hs + i) mod static_metadata_hash_size E)))) sl = 0)"
  shows "static_probe E st hs sl i = static_probe E st hs sl (i + 1)"
  using assms by (auto simp: static_probe.simps [of E st hs sl i] Let_def)

lemma init_clear_table:
  "static_metadata_hash (fold (init_clear_slot E) [0..<n] st) i =
     (if i < n then \<lparr>static_metadata_hash_ent.hash = 0, idx = of_nat (GRPC_STATIC_MDSTR_COUNT E)\<rparr>
      else static_metadata_hash st i)"
  by (induction n) (auto simp: init_clear_slot_def)

lemma init_clear_frame:
  "static_metadata_hash_values (fold (init_clear_slot E) is st) = static_metadata_hash_values st"
  "g_hash_seed (fold (init_clear_slot E) is st) = g_hash_seed st"
  "heap (fold (init_clear_slot E) is st) = heap st"
  "trace (fold (init_clear_slot E) is st) = trace st"
  by (induction "is" arbitrary: st) (auto simp: init_clear_slot_def)

lemma init_shard_frame:
  "static_metadata_hash_values (fold init_shard is st) = static_metadata_hash_values st"
  "static_metadata_hash (fold init_shard is st) = static_metadata_hash st"
  "g_hash_seed (fold init_shard is st) = g_hash_seed st"
  "heap (fold init_shard is st) = heap st"
  by (induction "is" arbitrary: st) (auto simp: init_shard_def)

lemma init_insert_frame:
  "heap (init_insert E st i j) = heap st \<and> g_hash_seed (init_insert E st i j) = g_hash_seed st \<and>
   static_metadata_hash_values (init_insert E st i j) = static_metadata_hash_values st"
proof (induction E st i j rule: init_insert.induct)
  case (1 E st i j)
  show ?case
  proof (cases "j < static_metadata_hash_size E")
    case False
    then show ?thesis
      by (simp add: init_insert.simps [of E st i j])
  next
    case True
    show ?thesis
    proof (cases "idx (static_metadata_hash st
                   (((unat (static_metadata_hash_values st i) + j) mod 2 ^ 64)
                      mod static_metadata_hash_size E)) = of_nat (GRPC_STATIC_MDSTR_COUNT E)")
      case t: True
      with True show ?thesis
        by (simp add: init_insert.simps [of E st i j] Let_def)
    next
      case f: False
      with True have "init_insert E st i j = init_insert E st i (j + 1)"
        by (simp add: init_insert.simps [of E st i j] Let_def)
      with "1.IH" [OF True refl f] show ?thesis
        by simp
    qed
  qed
qed

lemma init_static_frame:
  "heap (fold (init_static_string E) is st) = heap st \<and>
   g_hash_seed (fold (init_static_string E) is st) = g_hash_seed st"
  by (induction "is" arbitrary: st) (auto simp: init_static_string_def init_insert_frame)

lemma init_heap: "heap (grpc_slice_intern_init E now st) = heap st"
  by (simp add: grpc_slice_intern_init_def Let_def init_static_frame init_clear_frame
        init_shard_frame)

lemma ex_sizes:
  "GRPC_STATIC_MDSTR_COUNT ex_extern = 1" "static_metadata_hash_size ex_extern = 4"
  by (simp_all add: static_metadata_hash_size_def GRPC_STATIC_MDSTR_COUNT_def ex_extern_def)

lemma ex_booted_table:
  "static_metadata_hash ex_booted 0 = \<lparr>static_metadata_hash_ent.hash = 768, idx = 0\<rparr>"
  "max_static_metadata_hash_probe ex_booted = 0"
  by (simp_all add: ex_booted_def grpc_slice_intern_init_def Let_def ex_sizes
        init_static_string_def init_insert_free init_clear_table init_clear_frame
        init_shard_frame grpc_slice_default_hash_impl_def ex_power_on_def)
    (simp_all add: ex_extern_def ex_static_def)

lemma ex_booted_miss: "static_probe ex_extern ex_booted 0 (ex_slice 0 bs) 0 = Some None"
proof -
  have "static_probe ex_extern ex_booted 0 (ex_slice 0 bs) 0 =
        static_probe ex_extern ex_booted 0 (ex_slice 0 bs) (0 + 1)"
    by (rule static_probe_next) (simp_all add: ex_booted_table ex_sizes)
  also have "\<dots> = Some None"
    by (rule static_probe_end) (simp add: ex_booted_table)
  finally show ?thesis .
qed

lemma ex_booted_shard:
  "g_shards ex_booted 0 =
     \<lparr>strs = replicate INITIAL_SHARD_CAPACITY None, count = 0, capacity = INITIAL_SHARD_CAPACITY\<rparr>"
  by (simp add: ex_booted_def init_shards SHARD_COUNT_def)

lemma ex_booted_heap: "heap ex_booted = Map.empty"
  by (simp add: ex_booted_def init_heap ex_power_on_def)

lemma ex_booted_intern:
  "grpc_slice_intern ex_extern ex_booted (ex_slice 0 []) =
     Some (Inr (ex_first, \<lparr>refcount = Interned 3, bytes = Payload 3, content = []\<rparr>))"
proof -
  have s: "SHARD_IDX 0 = 0" and t: "TABLE_IDX 0 INITIAL_SHARD_CAPACITY = 0"
    by (simp_all add: SHARD_IDX_def TABLE_IDX_def)
  have "grpc_slice_intern ex_extern ex_booted (ex_slice 0 []) =
        Some (Inr (locked_state ex_booted (SHARD_IDX 0)
          [3 \<mapsto> new_block 0 (ex_slice 0 []) None]
          \<lparr>strs = (replicate INITIAL_SHARD_CAPACITY None)[0 := Some 3], count = 1,
           capacity = INITIAL_SHARD_CAPACITY\<rparr>,
          \<lparr>refcount = Interned 3, bytes = Payload 3, content = []\<rparr>))"
  proof (rule intern_dynamic)
    show "\<not> grpc_is_static_metadata_string ex_extern (ex_slice 0 [])"
      by (simp add: ex_extern_def ex_slice_def)
    show "grpc_slice_hash ex_extern ex_booted (ex_slice 0 []) = Inr 0"
      by (simp add: grpc_slice_hash_def grpc_slice_default_hash_impl_def ex_slice_def
            ex_extern_def)
    show "static_probe ex_extern ex_booted 0 (ex_slice 0 []) 0 = Some None"
      by (rule ex_booted_miss)
    show "grpc_slice_intern_locked ex_extern (heap ex_booted) (g_shards ex_booted (SHARD_IDX 0))
            0 (ex_slice 0 []) =
          Some (Inr ([3 \<mapsto> new_block 0 (ex_slice 0 []) None],
            \<lparr>strs = (replicate INITIAL_SHARD_CAPACITY None)[0 := Some 3], count = 1,
             capacity = INITIAL_SHARD_CAPACITY\<rparr>,
            \<lparr>refcount = Interned 3, bytes = Payload 3, content = []\<rparr>))"
      unfolding s ex_booted_shard ex_booted_heap
      by (simp add: grpc_slice_intern_locked_def t grpc_slice_intern_scan.simps
            grpc_slice_intern_create_def Let_def new_block_def materialize_def)
        (simp add: INITIAL_SHARD_CAPACITY_def ex_extern_def ex_slice_def)
  qed
  then show ?thesis
    by (simp add: s ex_first_def)
qed

lemma shutdown_chain_ok:
  "is_chain h s ps \<Longrightarrow> shutdown_chain s h tr = Some (Inr (tr @ leak_records h ps))"
proof (induction ps arbitrary: s tr)
  case Nil
  then show ?case
    by (simp add: shutdown_chain.simps leak_records_def)
next
  case (Cons p ps)
  from Cons.prems obtain r where
    s: "s = Some p" and r: "h p = Some r" and c: "is_chain h (bucket_next r) ps"
    by (auto split: option.splits)
  have "shutdown_chain s h tr =
        shutdown_chain (bucket_next r) h (tr @ [Log_leaked (materialize p r)])"
    unfolding s by (simp add: shutdown_chain.simps [of "Some p"] r)
  also have "\<dots> = Some (Inr ((tr @ [Log_leaked (materialize p r)]) @ leak_records h ps))"
    using c by (rule Cons.IH)
  finally show ?case
    by (simp add: leak_records_def r)
qed

lemma shutdown_buckets_ok:
  "list_all2 (is_chain h) ss cs \<Longrightarrow>
   shutdown_buckets h tr ss = Some (Inr (tr @ leak_records h (concat cs)))"
proof (induction ss arbitrary: cs tr)
  case Nil
  then show ?case
    by (simp add: leak_records_def)
next
  case (Cons s ss)
  from Cons.prems obtain c cs' where
    cs: "cs = c # cs'" and c: "is_chain h s c" and r: "list_all2 (is_chain h) ss cs'"
    by (auto simp: list_all2_Cons1)
  show ?case
    using Cons.IH [OF r] by (simp add: cs shutdown_chain_ok [OF c] leak_records_def)
qed

lemma shutdown_shard_ok:
  assumes "chains_ok (heap st) (g_shards st i) (css i)"
  shows "shutdown_shard E st i =
     Some ((if grpc_iomgr_abort_on_leaks E \<and> count (g_shards st i) \<noteq> 0
            then (\<lambda>s. Inl (Aborted, s)) else Inr)
       (st\<lparr>trace := trace st @ shard_report E (heap st) (g_shards st) css i\<rparr>))"
proof -
  have l: "length (strs (g_shards st i)) = capacity (g_shards st i)"
    and a: "list_all2 (is_chain (heap st)) (strs (g_shards st i)) (css i)"
    using assms by (simp_all add: chains_ok_def)
  show ?thesis
    by (simp add: shutdown_shard_def Let_def l shutdown_buckets_ok [OF a] shard_report_def)
qed

lemma shutdown_shards_ok:
  assumes "\<forall>i\<in>set is. chains_ok (heap st) (g_shards st i) (css i)"
  shows "shutdown_shards E st is =
     Some ((if grpc_iomgr_abort_on_leaks E \<and> leaks (g_shards st) is
            then (\<lambda>s. Inl (Aborted, s)) else Inr)
       (st\<lparr>trace := trace st @
              concat (map (shard_report E (heap st) (g_shards st) css)
                (visited E (g_shards st) is))\<rparr>))"
  using assms
proof (induction "is" arbitrary: st)
  case Nil
  then show ?case
    by (simp add: leaks_def visited_def)
next
  case (Cons i "is")
  have ok: "chains_ok (heap st) (g_shards st i) (css i)"
    using Cons.prems by simp
  let ?st = "st\<lparr>trace := trace st @ shard_report E (heap st) (g_shards st) css i\<rparr>"
  note step = shutdown_shard_ok [where st = st and i = i and css = css and E = E, OF ok]
  show ?case
  proof (cases "grpc_iomgr_abort_on_leaks E \<and> count (g_shards st i) \<noteq> 0")
    case True
    then show ?thesis
      by (simp add: step leaks_def visited_def)
  next
    case False
    have "\<forall>k\<in>set is. chains_ok (heap ?st) (g_shards ?st k) (css k)"
      using Cons.prems by simp
    from Cons.IH [OF this] show ?thesis
      using False by (auto simp: step leaks_def visited_def)
  qed
qed

lemma empty_chains_ok:
  "chains_ok h \<lparr>strs = replicate 8 None, count = 0, capacity = 8\<rparr> (replicate 8 [])"
  by (simp add: chains_ok_def list_all2_conv_all_nth)

lemma ex_css_ok: "chains_ok (heap ex_state) (g_shards ex_state i) (ex_css i)"
proof (cases "i = 0")
  case True
  then show ?thesis
    using ex_chains_ok by (simp add: ex_css_def ex_state_def)
next
  case False
  then show ?thesis
    using empty_chains_ok [of ex_heap] by (simp add: ex_css_def ex_state_def)
qed

lemma ex_report_0:
  "shard_report E (heap ex_state) (g_shards ex_state) ex_css 0 =
     [Mu_destroy 0, Log_warning 2,
      Log_leaked \<lparr>refcount = Interned 1, bytes = Payload 1, content = []\<rparr>,
      Log_leaked \<lparr>refcount = Interned 2, bytes = Payload 2, content = [2]\<rparr>] @
     (if grpc_iomgr_abort_on_leaks E then [] else [Strs_free 0])"
  by (simp add: shard_report_def ex_state_def ex_shard_def ex_css_def ex_chains_def
        leak_records_def ex_heap_def ex_block_def materialize_def)

lemma ex_report_Suc:
  "0 < i \<Longrightarrow> shard_report E (heap ex_state) (g_shards ex_state) ex_css i =
     [Mu_destroy i, Strs_free i]"
  by (simp add: shard_report_def ex_state_def)

lemma upt_0_SHARD_COUNT: "[0..<SHARD_COUNT] = 0 # [1..<SHARD_COUNT]"
  by (simp add: SHARD_COUNT_def LOG2_SHARD_COUNT_def upt_conv_Cons)

lemma ex_count_0: "count (g_shards ex_state 0) = 2"
  by (simp add: ex_state_def ex_shard_def)

lemma ex_idx_1024: "SHARD_IDX 1024 = 0" "TABLE_IDX 1024 8 = 0"
  by (simp_all add: SHARD_IDX_def TABLE_IDX_def LOG2_SHARD_COUNT_def)

lemma ex_sub_hash: "grpc_slice_hash ex_extern ex_state_sub ex_sub = Inr 768"
  by (simp add: grpc_slice_hash_def interned_slice_hash_def ex_sub_def ex_state_sub_def
        ex_block_def grpc_slice_default_hash_impl_def ex_extern_def)

lemma ex_sub_probe: "static_probe ex_extern ex_state_sub 768 ex_sub 0 = Some (Some ex_static)"
  by (subst static_probe.simps)
    (simp add: Let_def ex_state_sub_def ex_state_def static_metadata_hash_size_def GRPC_STATIC_MDSTR_COUNT_def
        ex_extern_def grpc_slice_cmp_def ex_static_def ex_sub_def)

lemma ex_sub_unref:
  "interned_slice_unref ex_state_sub 1 =
     Some (Inr (locked_state ex_state_sub 0 Map.empty
       \<lparr>strs = [None, None, None, None, None, None, None, None], count = 0, capacity = 8\<rparr>))"
  by (simp add: interned_slice_unref_def gpr_atm_fetch_add_def ex_state_sub_def ex_block_def
        interned_slice_destroy_def interned_slice_destroy_locked_def ex_idx_1024
        interned_slice_destroy_find.simps locked_state_def ex_state_def)

lemma destroy_locked_frame:
  assumes "interned_slice_destroy_locked h shard s = Some (Inr (h', shard'))"
  shows "dom h' \<subseteq> dom h \<and> capacity shard' = capacity shard"
  using assms
  by (auto simp: interned_slice_destroy_locked_def
        split: option.splits if_splits sum.splits link.splits)

lemma destroy_frame:
  assumes "interned_slice_destroy st s = Some (Inr st')" and "heap st s = Some r"
  shows "dom (heap st') \<subseteq> dom (heap st) \<and>
         capacity (g_shards st' k) = capacity (g_shards st k) \<and>
         (k \<noteq> SHARD_IDX (interned_slice_refcount.hash r) \<longrightarrow> g_shards st' k = g_shards st k)"
proof -
  from assms obtain h shard where
    l: "interned_slice_destroy_locked (heap st)
              (g_shards st (SHARD_IDX (interned_slice_refcount.hash r))) s = Some (Inr (h, shard))"
    and g: "g_shards st' = (g_shards st)(SHARD_IDX (interned_slice_refcount.hash r) := shard)"
    and h: "heap st' = h"
    by (auto simp: interned_slice_destroy_def split: option.splits sum.splits)
  from destroy_locked_frame [OF l] show ?thesis
    by (simp add: g h)
qed

lemma unref_frame:
  assumes "interned_slice_unref st s = Some (Inr st')" and "heap st s = Some r"
  shows "dom (heap st') \<subseteq> dom (heap st) \<and>
         capacity (g_shards st' k) = capacity (g_shards st k) \<and>
         (k \<noteq> SHARD_IDX (interned_slice_refcount.hash r) \<or> refcnt r \<noteq> 1
            \<longrightarrow> g_shards st' k = g_shards st k)"
proof (cases "refcnt r = 1")
  case True
  let ?st1 = "st\<lparr>heap := (heap st)(s \<mapsto> r\<lparr>refcnt := refcnt r + - 1\<rparr>)\<rparr>"
  have d: "interned_slice_destroy ?st1 s = Some (Inr st')"
    using assms True by (simp add: interned_slice_unref_def gpr_atm_fetch_add_def)
  have "heap ?st1 s = Some (r\<lparr>refcnt := refcnt r + - 1\<rparr>)"
    by simp
  from destroy_frame [OF d this, of k] show ?thesis
    using assms(2) True by auto
next
  case False
  then have "st' = st\<lparr>heap := (heap st)(s \<mapsto> r\<lparr>refcnt := refcnt r + - 1\<rparr>)\<rparr>"
    using assms by (simp add: interned_slice_unref_def gpr_atm_fetch_add_def)
  then show ?thesis
    using assms(2) by auto
qed

lemma ex_sub_chains_ok: "chains_ok (heap ex_state_sub) (g_shards ex_state_sub 0) ex_chains_sub"
  by (auto simp: chains_ok_def ex_state_sub_def ex_chains_sub_def ex_block_def hash_of_def
        ex_idx_1024 less_Suc_eq)

lemma ex_sub_ok: "slice_ok ex_extern ex_state_sub ex_sub"
  by (simp add: slice_ok_def ex_sub_def ex_state_sub_def ex_block_def block_ok_def
        ex_extern_def)

lemma ex_wrap_sizes:
  "GRPC_STATIC_MDSTR_COUNT ex_extern_wrap = 3" "static_metadata_hash_size ex_extern_wrap = 12"
  by (simp_all add: static_metadata_hash_size_def GRPC_STATIC_MDSTR_COUNT_def ex_extern_wrap_def)

lemma upt_0_3: "[0..<3] = [0, 1, 2]"
  by (simp add: upt_conv_Cons)

lemma ex_wrap_table:
  "max_static_metadata_hash_probe ex_wrap = 2"
  "static_metadata_hash ex_wrap 0 = \<lparr>static_metadata_hash_ent.hash = 0, idx = 3\<rparr>"
  "static_metadata_hash ex_wrap 2 = \<lparr>static_metadata_hash_ent.hash = 2, idx = 0\<rparr>"
  "static_metadata_hash ex_wrap 3 = \<lparr>static_metadata_hash_ent.hash = 3, idx = 1\<rparr>"
  "static_metadata_hash ex_wrap 4 = \<lparr>static_metadata_hash_ent.hash = 0xFFFFFFFE, idx = 2\<rparr>"
  by (simp_all add: ex_wrap_def grpc_slice_intern_init_def Let_def ex_wrap_sizes upt_0_3
        init_static_string_def init_insert_free init_insert_taken init_clear_table
        init_clear_frame init_shard_frame grpc_slice_default_hash_impl_def ex_power_on_def
        ex_extern_wrap_def [THEN arg_cong, of gpr_murmur_hash3]
        ex_extern_wrap_def [THEN arg_cong, of grpc_static_slice_table])

lemma ex_wrap_miss:
  assumes "content sl = [3]"
  shows "static_probe ex_extern_wrap ex_wrap 0xFFFFFFFE sl 0 = Some None"
proof -
  have "static_probe ex_extern_wrap ex_wrap 0xFFFFFFFE sl 0 =
        static_probe ex_extern_wrap ex_wrap 0xFFFFFFFE sl (0 + 1)"
    by (rule static_probe_next) (simp_all add: ex_wrap_table ex_wrap_sizes)
  also have "\<dots> = static_probe ex_extern_wrap ex_wrap 0xFFFFFFFE sl (1 + 1)"
    by (simp only: add_0) (rule static_probe_next, simp_all add: ex_wrap_table ex_wrap_sizes)
  also have "\<dots> = static_probe ex_extern_wrap ex_wrap 0xFFFFFFFE sl (2 + 1)"
    by (simp only: one_add_one) (rule static_probe_next, simp_all add: ex_wrap_table ex_wrap_sizes)
  also have "\<dots> = Some None"
    by (rule static_probe_end) (simp add: ex_wrap_table)
  finally show ?thesis .
qed

lemma ex_wrap_values: "static_metadata_hash_values ex_wrap 2 = 0xFFFFFFFE"
  by (simp add: ex_wrap_def grpc_slice_intern_init_def Let_def ex_wrap_sizes upt_0_3
        init_static_string_def init_insert_frame init_clear_frame init_shard_frame
        grpc_slice_default_hash_impl_def ex_power_on_def
        ex_extern_wrap_def [THEN arg_cong, of gpr_murmur_hash3]
        ex_extern_wrap_def [THEN arg_cong, of grpc_static_slice_table])

lemma ex_idx_wrap: "SHARD_IDX 0xFFFFFFFE = 30" "TABLE_IDX 0xFFFFFFFE 8 = 7"
  by (simp_all add: SHARD_IDX_def TABLE_IDX_def LOG2_SHARD_COUNT_def)

lemma ex_wrap_shard:
  "g_shards ex_wrap 30 =
     \<lparr>strs = replicate INITIAL_SHARD_CAPACITY None, count = 0, capacity = INITIAL_SHARD_CAPACITY\<rparr>"
  by (simp add: ex_wrap_def init_shards SHARD_COUNT_def LOG2_SHARD_COUNT_def)

lemma ex_wrap_heap: "heap ex_wrap = Map.empty"
  by (simp add: ex_wrap_def init_heap ex_power_on_def)

lemma ex_bucket_7:
  "(replicate 8 None)[7 := Some (3 :: addr)] =
     [None, None, None, None, None, None, None, Some 3]"
  "replicate 8 (None :: addr option) ! 7 = None"
  by (simp_all add: numeral_eq_Suc)

lemma ex_wrap_locked:
  "grpc_slice_intern_locked ex_extern_wrap Map.empty
     \<lparr>strs = replicate INITIAL_SHARD_CAPACITY None, count = 0, capacity = INITIAL_SHARD_CAPACITY\<rparr>
     0xFFFFFFFE (ex_slice 0 [3]) =
   Some (Inr ([3 \<mapsto> new_block 0xFFFFFFFE (ex_slice 0 [3]) None],
     \<lparr>strs = [None, None, None, None, None, None, None, Some 3], count = 1, capacity = 8\<rparr>,
     \<lparr>refcount = Interned 3, bytes = Payload 3, content = [3]\<rparr>))"
proof -
  have m: "gpr_malloc ex_extern_wrap Map.empty = 3"
    by (simp add: ex_extern_wrap_def ex_extern_def)
  show ?thesis
    unfolding INITIAL_SHARD_CAPACITY_def
    by (simp add: grpc_slice_intern_locked_def ex_idx_wrap ex_bucket_7
          grpc_slice_intern_scan.simps grpc_slice_intern_create_def Let_def new_block_def
          materialize_def m ex_slice_def)
qed

lemma canonical_block_content:
  "content a = content b \<Longrightarrow> canonical_block E st cs hs a = canonical_block E st cs hs b"
  by (simp add: canonical_block_def matches_content [of a b])

lemma intern_twice_record:
  assumes ok: "chains_ok (heap st) (g_shards st (SHARD_IDX hs)) cs"
    and hs: "hs = gpr_murmur_hash3 E (content a) (g_hash_seed st)"
    and cnt: "counted (heap st) cs"
    and oka: "slice_ok E st a" and okb: "slice_ok E st b"
    and ab: "content a = content b"
    and na: "\<not> grpc_is_static_metadata_string E a"
    and nb: "\<not> grpc_is_static_metadata_string E b"
    and miss: "static_probe E st hs a 0 = Some None"
    and fresh: "heap st (gpr_malloc E (heap st)) = None"
    and p: "p = canonical_block E st cs hs a"
    and res: "res = \<lparr>refcount = Interned p, bytes = Payload p, content = content a\<rparr>"
  shows "\<exists>st1 st2 cs2.
           grpc_slice_intern E st a = Some (Inr (st1, res)) \<and>
           grpc_slice_intern E st1 b = Some (Inr (st2, res)) \<and>
           interned_record st2 cs2 p hs (content a)
             (2 + (case heap st p of None \<Rightarrow> 0 | Some r \<Rightarrow> refcnt r))"
proof -
  let ?k = "SHARD_IDX hs"
  let ?h = "heap st"
  let ?shard = "g_shards st ?k"
  let ?i = "TABLE_IDX hs (capacity ?shard)"
  let ?P = "\<lambda>q. matches ?h hs a q \<and> live ?h q"
  have ha: "grpc_slice_hash E st a = Inr hs"
    using hash_ok [OF oka na] hs by simp
  have hb: "grpc_slice_hash E st' b = Inr hs"
    if "blocks_kept ?h (heap st')" "g_hash_seed st' = g_hash_seed st" for st'
    using hash_ok [OF slice_ok_kept [OF okb that] nb] hs ab that(2) by simp
  have pb: "static_probe E st' hs b 0 = static_probe E st hs a 0"
    if "static_metadata_hash st' = static_metadata_hash st"
      "max_static_metadata_hash_probe st' = max_static_metadata_hash_probe st" for st'
    using that ab by (intro static_probe_cong) simp_all
  show ?thesis
  proof (cases "List.find ?P (cs ! ?i)")
    case (Some q)
    have pq: "p = q"
      using p Some by (simp add: canonical_block_def)
    from find_Some_D [OF Some] obtain r where r: "?h q = Some r" and pin: "q \<in> set (cs ! ?i)"
      and m: "matches ?h hs a q"
      by (auto simp: matches_def split: option.splits)
    have mr: "interned_slice_refcount.hash r = hs" "content a = take (slen r) (payload r)"
      using m r by (simp_all add: matches_def)
    have i: "?i < length cs"
      using chains_ok_length [OF ok] TABLE_IDX_less [OF chains_ok_cap [OF ok]] by simp
    have "q \<in> set (concat cs)"
      using pin nth_subset_concat [OF i] by blast
    then have nn: "0 \<le> refcnt r"
      using cnt r unfolding counted_def by (auto dest!: bspec)
    have rs: "res = materialize q r"
      using res pq mr by (simp add: materialize_def)
    let ?st1 = "locked_state st ?k (add_ref ?h q) ?shard"
    have 1: "grpc_slice_intern E st a = Some (Inr (?st1, materialize q r))"
      using na ha miss locked_hit [OF ok Some r, of E] by (rule intern_dynamic)
    have ok1: "chains_ok (heap ?st1) (g_shards ?st1 ?k) cs"
      unfolding locked_state_simps using ok by (rule chains_ok_add_ref)
    have f1: "List.find (\<lambda>q. matches (heap ?st1) hs b q \<and> live (heap ?st1) q)
                (cs ! TABLE_IDX hs (capacity (g_shards ?st1 ?k))) = Some q"
      unfolding locked_state_simps matches_content [OF ab, symmetric]
      using Some r nn by (rule find_after_hit)
    have r1: "heap ?st1 q = Some (r\<lparr>refcnt := refcnt r + 1\<rparr>)"
      unfolding locked_state_simps using r by (simp add: add_ref_def)
    have hb1: "grpc_slice_hash E ?st1 b = Inr hs"
      by (rule hb) (simp_all add: locked_state_simps blocks_kept_add_ref)
    have pb1: "static_probe E ?st1 hs b 0 = Some None"
      using pb [of ?st1] miss by (simp add: locked_state_simps)
    let ?st2 = "locked_state ?st1 ?k (add_ref (heap ?st1) q) (g_shards ?st1 ?k)"
    have 2: "grpc_slice_intern E ?st1 b =
            Some (Inr (?st2, materialize q (r\<lparr>refcnt := refcnt r + 1\<rparr>)))"
      using nb hb1 pb1 locked_hit [OF ok1 f1 r1, of E] by (rule intern_dynamic)
    have m2: "materialize q (r\<lparr>refcnt := refcnt r + 1\<rparr>) = materialize q r"
      by (simp add: materialize_def)
    have ok2: "chains_ok (heap ?st2) (g_shards ?st2 ?k) cs"
      unfolding locked_state_simps [of ?st1] using ok1 by (rule chains_ok_add_ref)
    have h2: "heap ?st2 q = Some (r\<lparr>refcnt := refcnt r + 2\<rparr>)"
      using r by (simp add: locked_state_simps add_ref_def)
    have c2: "capacity (g_shards ?st2 ?k) = capacity ?shard"
      by (simp add: locked_state_simps)
    have "interned_record ?st2 cs p hs (content a)
            (2 + (case heap st p of None \<Rightarrow> 0 | Some r \<Rightarrow> refcnt r))"
      unfolding interned_record_def pq h2 c2 using ok2 pin r mr by simp
    with 1 2 show ?thesis
      unfolding rs m2 by blast
  next
    case None
    let ?s = "gpr_malloc E ?h"
    have ps: "p = ?s"
      using p None by (simp add: canonical_block_def)
    have rs: "res = \<lparr>refcount = Interned ?s, bytes = Payload ?s, content = content a\<rparr>"
      using res ps by simp
    from locked_miss [OF ok None fresh] obtain h' shard' cs' where
      lk: "grpc_slice_intern_locked E ?h ?shard hs a = Some (Inr (h', shard', res))"
      and ok': "chains_ok h' shard' cs'"
      and s': "set (concat cs') = insert ?s (set (concat cs))"
      and sb: "same_blocks (?h(?s \<mapsto> new_block hs a None)) h'"
      unfolding rs by (elim exE conjE)
    let ?st1 = "locked_state st ?k h' shard'"
    have 1: "grpc_slice_intern E st a = Some (Inr (?st1, res))"
      using na ha miss lk by (rule intern_dynamic)
    have ok1: "chains_ok (heap ?st1) (g_shards ?st1 ?k) cs'"
      unfolding locked_state_simps by (rule ok')
    have f1: "List.find (\<lambda>q. matches (heap ?st1) hs b q \<and> live (heap ?st1) q)
                (cs' ! TABLE_IDX hs (capacity (g_shards ?st1 ?k))) = Some ?s"
      unfolding locked_state_simps matches_content [OF ab, symmetric]
      using ok None fresh ok' s' sb by (rule find_after_miss)
    from same_blocks_cases [OF sb, of ?s] obtain r2 where r2: "h' ?s = Some r2"
      and f2: "slen r2 = length (content a)" "payload r2 = content a"
      and g2: "refcnt r2 = 1" "interned_slice_refcount.hash r2 = hs"
      by (auto simp: new_block_def)
    have r1: "heap ?st1 ?s = Some r2"
      unfolding locked_state_simps by (rule r2)
    have kept: "blocks_kept ?h h'"
      using fresh sb by (rule blocks_kept_new)
    have hb1: "grpc_slice_hash E ?st1 b = Inr hs"
      by (rule hb) (simp_all add: locked_state_simps kept)
    have pb1: "static_probe E ?st1 hs b 0 = Some None"
      using pb [of ?st1] miss by (simp add: locked_state_simps)
    let ?st2 = "locked_state ?st1 ?k (add_ref (heap ?st1) ?s) (g_shards ?st1 ?k)"
    have 2: "grpc_slice_intern E ?st1 b = Some (Inr (?st2, materialize ?s r2))"
      using nb hb1 pb1 locked_hit [OF ok1 f1 r1, of E] by (rule intern_dynamic)
    have m2: "materialize ?s r2 = res"
      unfolding rs using f2 by (rule materialize_new)
    have ok2: "chains_ok (heap ?st2) (g_shards ?st2 ?k) cs'"
      unfolding locked_state_simps [of ?st1] using ok1 by (rule chains_ok_add_ref)
    have h2: "heap ?st2 ?s = Some (r2\<lparr>refcnt := refcnt r2 + 1\<rparr>)"
      using r2 by (simp add: locked_state_simps add_ref_def)
    have c2: "capacity (g_shards ?st2 ?k) = capacity shard'"
      by (simp add: locked_state_simps)
    have pin: "?s \<in> set (cs' ! TABLE_IDX hs (capacity shard'))"
      using find_Some_D [OF f1] by (simp add: locked_state_simps)
    have "interned_record ?st2 cs' p hs (content a)
            (2 + (case heap st p of None \<Rightarrow> 0 | Some r \<Rightarrow> refcnt r))"
      unfolding interned_record_def ps h2 c2 using ok2 pin fresh f2 g2 by simp
    with 1 2 show ?thesis
      unfolding m2 by blast
  qed
qed

lemma static_probe_none:
  assumes "max_static_metadata_hash_probe st \<noteq> - 1"
    and "\<forall>t\<in>set (grpc_static_slice_table E). content t \<noteq> content sl"
  shows "static_probe E st hs sl i = Some None"
proof (cases "static_probe E st hs sl i")
  case None
  with static_probe_total [OF assms(1), of E hs sl i] show ?thesis
    by simp
next
  case (Some y)
  show ?thesis
  proof (cases y)
    case None
    with Some show ?thesis by simp
  next
    case (Some t)
    with \<open>static_probe E st hs sl i = Some y\<close> have "static_probe E st hs sl i = Some (Some t)"
      by simp
    from static_probe_hit [OF this] assms(2) show ?thesis
      by auto
  qed
qed

lemma unat_256_times: "n \<le> 16 \<Longrightarrow> unat (256 * of_nat n :: u32) = 256 * n"
  by (simp add: unat_word_ariths unat_of_nat)

lemma SHARD_IDX_256: "SHARD_IDX (256 * x) = 0"
proof -
  have a: "(256 * x :: u32) = push_bit 8 x"
    by (simp add: push_bit_eq_mult)
  have b: "(push_bit 5 1 - 1 :: u32) = mask 5"
    by (simp add: mask_eq_exp_minus_1)
  have "(256 * x) AND (push_bit LOG2_SHARD_COUNT 1 - 1) = take_bit 5 (push_bit 8 x)"
    unfolding LOG2_SHARD_COUNT_def a b by (simp add: take_bit_eq_mask)
  also have "\<dots> = 0"
    by (simp add: take_bit_push_bit)
  finally show ?thesis
    by (simp add: SHARD_IDX_def)
qed

lemma malloc_first_free:
  assumes "dom h \<subseteq> {1..n}" and "n < 63"
  shows "h (Suc (length (takeWhile (\<lambda>p. h p \<noteq> None) [1..<64]))) = None \<and>
         Suc (length (takeWhile (\<lambda>p. h p \<noteq> None) [1..<64])) \<in> {1..Suc n}"
proof -
  let ?P = "\<lambda>p. h p \<noteq> None"
  let ?m = "length (takeWhile ?P [1..<64])"
  have free: "\<not> ?P (Suc n)"
    using assms(1) by (auto simp: dom_def)
  have le: "?m \<le> n"
  proof (rule ccontr)
    assume "\<not> ?m \<le> n"
    then have "n < ?m"
      by simp
    then have "takeWhile ?P [1..<64] ! n \<in> set (takeWhile ?P [1..<64])"
      by (rule nth_mem)
    then have "?P (takeWhile ?P [1..<64] ! n)"
      by (rule set_takeWhileD [THEN conjunct2])
    moreover have "takeWhile ?P [1..<64] ! n = [1..<64] ! n"
      using \<open>n < ?m\<close> by (rule takeWhile_nth)
    moreover have "[1..<64] ! n = Suc n"
      using assms(2) by simp
    ultimately show False
      using free by simp
  qed
  then have lt: "?m < length [1..<64]"
    using assms(2) by simp
  from nth_length_takeWhile [OF lt] have "\<not> ?P ([1..<64] ! ?m)" .
  moreover have "[1..<64] ! ?m = Suc ?m"
    using lt by simp
  ultimately show ?thesis
    using le by simp
qed

lemma run_snoc:
  "run E st xs = Some (Inr st1) \<Longrightarrow> op_step E st1 x = Some (Inr st2) \<Longrightarrow>
   run E st (xs @ [x]) = Some (Inr st2)"
  by (induction xs arbitrary: st) (auto split: option.splits sum.splits)

lemma ex_many_sizes:
  "GRPC_STATIC_MDSTR_COUNT ex_extern_many = 1" "static_metadata_hash_size ex_extern_many = 4"
  by (simp_all add: static_metadata_hash_size_def GRPC_STATIC_MDSTR_COUNT_def ex_extern_many_def
        ex_extern_def)

lemma ex_many_booted_probe: "max_static_metadata_hash_probe ex_many_booted = 0"
  by (simp add: ex_many_booted_def grpc_slice_intern_init_def Let_def ex_many_sizes
        init_static_string_def init_insert_free init_clear_table init_clear_frame
        init_shard_frame grpc_slice_default_hash_impl_def ex_power_on_def)

lemma ex_many_booted_shard:
  "g_shards ex_many_booted 0 = \<lparr>strs = replicate 8 None, count = 0, capacity = 8\<rparr>"
  by (simp add: ex_many_booted_def init_shards SHARD_COUNT_def INITIAL_SHARD_CAPACITY_def)

lemma ex_many_booted_heap: "heap ex_many_booted = Map.empty"
  by (simp add: ex_many_booted_def init_heap ex_power_on_def)

lemma ex_nth_slice_facts:
  "\<not> grpc_is_static_metadata_string ex_extern_many (ex_nth_slice n)"
  "grpc_slice_hash ex_extern_many st (ex_nth_slice n) = Inr (256 * of_nat n)"
  "content (ex_nth_slice n) = replicate n 0"
  by (simp_all add: ex_nth_slice_def ex_slice_def ex_extern_many_def ex_extern_def
        grpc_slice_hash_def grpc_slice_default_hash_impl_def)

lemma ex_nth_slice_miss:
  assumes "max_static_metadata_hash_probe st = 0"
  shows "static_probe ex_extern_many st hs (ex_nth_slice n) 0 = Some None"
proof (rule static_probe_none)
  show "max_static_metadata_hash_probe st \<noteq> - 1"
    using assms by simp
  have "(7 :: u8) \<notin> set (replicate n 0)"
    by simp
  then have "replicate n 0 \<noteq> [7, 7, 7 :: u8]"
    by (metis list.set_intros(1))
  then show "\<forall>t\<in>set (grpc_static_slice_table ex_extern_many). content t \<noteq> content (ex_nth_slice n)"
    by (simp add: ex_extern_many_def ex_extern_def ex_static_def ex_nth_slice_facts)
qed

lemma ex_filled_insert:
  assumes f: "ex_filled n st cs" and n: "n \<le> 16"
  shows "\<exists>st' res cs'.
           grpc_slice_intern ex_extern_many st (ex_nth_slice n) = Some (Inr (st', res)) \<and>
           chains_ok (heap st') (g_shards st' 0) cs' \<and>
           count (g_shards st' 0) = Suc n \<and>
           capacity (g_shards st' 0) = (if n = 16 then 16 else 8) \<and>
           dom (heap st') \<subseteq> {1..Suc n} \<and>
           (\<forall>p r. heap st' p = Some r \<longrightarrow>
                  unat (interned_slice_refcount.hash r) < 256 * Suc n) \<and>
           max_static_metadata_hash_probe st' = 0"
proof -
  let ?E = ex_extern_many
  let ?hs = "256 * of_nat n :: u32"
  let ?sl = "ex_nth_slice n"
  let ?h = "heap st"
  let ?s = "gpr_malloc ?E ?h"
  note k = SHARD_IDX_256 [of "of_nat n"]
  from f have ok: "chains_ok ?h (g_shards st (SHARD_IDX ?hs)) cs"
    and cnt: "count (g_shards st 0) = n" and cap: "capacity (g_shards st 0) = 8"
    and dm: "dom ?h \<subseteq> {1..n}"
    and hb: "\<forall>p r. ?h p = Some r \<longrightarrow> unat (interned_slice_refcount.hash r) < 256 * n"
    and mx: "max_static_metadata_hash_probe st = 0"
    by (simp_all add: ex_filled_def k)
  have un: "unat ?hs = 256 * n"
    using n by (rule unat_256_times)
  have none: "List.find (\<lambda>q. matches ?h ?hs ?sl q \<and> live ?h q)
                (cs ! TABLE_IDX ?hs (capacity (g_shards st (SHARD_IDX ?hs)))) = None"
    unfolding find_None_iff
  proof
    fix q
    show "\<not> (matches ?h ?hs ?sl q \<and> live ?h q)"
    proof
      assume "matches ?h ?hs ?sl q \<and> live ?h q"
      then obtain r where "?h q = Some r" "interned_slice_refcount.hash r = ?hs"
        by (auto simp: matches_def split: option.splits)
      with hb un show False
        by fastforce
    qed
  qed
  have s: "?s = Suc (length (takeWhile (\<lambda>p. ?h p \<noteq> None) [1..<64]))"
    by (simp add: ex_extern_many_def)
  have "n < 63"
    using n by simp
  from malloc_first_free [OF dm this] have fresh: "?h ?s = None" and sin: "?s \<in> {1..Suc n}"
    unfolding s by simp_all
  from locked_miss [OF ok none fresh] obtain h' shard' cs' where
    lk: "grpc_slice_intern_locked ?E ?h (g_shards st (SHARD_IDX ?hs)) ?hs ?sl =
           Some (Inr (h', shard',
             \<lparr>refcount = Interned ?s, bytes = Payload ?s, content = content ?sl\<rparr>))"
    and ok': "chains_ok h' shard' cs'"
    and sb: "same_blocks (?h(?s \<mapsto> new_block ?hs ?sl None)) h'"
    and c': "count shard' = count (g_shards st (SHARD_IDX ?hs)) + 1"
    and p': "capacity shard' =
              (if count (g_shards st (SHARD_IDX ?hs)) + 1 > capacity (g_shards st (SHARD_IDX ?hs)) * 2
               then capacity (g_shards st (SHARD_IDX ?hs)) * 2
               else capacity (g_shards st (SHARD_IDX ?hs)))"
    by (elim exE conjE)
  let ?st' = "locked_state st (SHARD_IDX ?hs) h' shard'"
  have 1: "grpc_slice_intern ?E st ?sl =
             Some (Inr (?st', \<lparr>refcount = Interned ?s, bytes = Payload ?s, content = content ?sl\<rparr>))"
    using ex_nth_slice_facts(1,2) ex_nth_slice_miss [OF mx] lk by (rule intern_dynamic)
  have blk: "p \<in> {1..Suc n} \<and> unat (interned_slice_refcount.hash r) < 256 * Suc n"
    if "h' p = Some r" for p r
  proof (cases "p = ?s")
    case True
    with same_blocks_cases [OF sb, of p] that un sin show ?thesis
      by (auto simp: new_block_def)
  next
    case False
    with same_blocks_cases [OF sb, of p] that obtain r0 where
      "?h p = Some r0" "interned_slice_refcount.hash r = interned_slice_refcount.hash r0"
      by auto
    with hb dm show ?thesis
      by (fastforce simp: dom_def)
  qed
  have "chains_ok (heap ?st') (g_shards ?st' 0) cs'"
    using ok' by (simp add: locked_state_def k)
  moreover have "count (g_shards ?st' 0) = Suc n"
    using c' [unfolded k] cnt by (simp add: locked_state_def k)
  moreover have "capacity (g_shards ?st' 0) = (if n = 16 then 16 else 8)"
    using p' [unfolded k] cnt cap n by (simp add: locked_state_def k)
  moreover have "dom (heap ?st') \<subseteq> {1..Suc n}"
    using blk by (auto simp: locked_state_def dom_def)
  moreover have "\<forall>p r. heap ?st' p = Some r \<longrightarrow>
                  unat (interned_slice_refcount.hash r) < 256 * Suc n"
    using blk by (simp add: locked_state_def)
  moreover have "max_static_metadata_hash_probe ?st' = 0"
    using mx by (simp add: locked_state_def)
  ultimately show ?thesis
    using 1 by blast
qed

lemma ex_filled_reach:
  "n \<le> 16 \<Longrightarrow>
   \<exists>st cs. run ex_extern_many ex_many_booted (ex_inserts n) = Some (Inr st) \<and> ex_filled n st cs"
proof (induction n)
  case 0
  have "ex_filled 0 ex_many_booted (replicate 8 [])"
    by (simp add: ex_filled_def ex_many_booted_shard ex_many_booted_heap empty_chains_ok
          ex_many_booted_probe)
  then show ?case
    by (auto simp: ex_inserts_def)
next
  case (Suc n)
  then obtain st cs where r: "run ex_extern_many ex_many_booted (ex_inserts n) = Some (Inr st)"
    and f: "ex_filled n st cs"
    by auto
  have n: "n \<le> 16" "n \<noteq> 16"
    using Suc.prems by simp_all
  from ex_filled_insert [OF f n(1)] n(2) obtain st' res cs' where
    i: "grpc_slice_intern ex_extern_many st (ex_nth_slice n) = Some (Inr (st', res))"
    and f': "ex_filled (Suc n) st' cs'"
    unfolding ex_filled_def by auto
  have "op_step ex_extern_many st (Intern (ex_nth_slice n)) = Some (Inr st')"
    by (simp add: op_step_def i)
  from run_snoc [OF r this] have "run ex_extern_many ex_many_booted (ex_inserts (Suc n)) = Some (Inr st')"
    by (simp add: ex_inserts_def)
  with f' show ?case
    by blast
qed

lemma ex_filled_new:
  assumes f: "ex_filled n st cs" and n: "n \<le> 16"
  shows "List.find (\<lambda>q. matches (heap st) (256 * of_nat n) (ex_nth_slice n) q \<and> live (heap st) q)
           (cs ! TABLE_IDX (256 * of_nat n) (capacity (g_shards st (SHARD_IDX (256 * of_nat n))))) =
         None"
    and "heap st (gpr_malloc ex_extern_many (heap st)) = None"
proof -
  from f have dm: "dom (heap st) \<subseteq> {1..n}"
    and hb: "\<forall>p r. heap st p = Some r \<longrightarrow> unat (interned_slice_refcount.hash r) < 256 * n"
    by (simp_all add: ex_filled_def)
  have un: "unat (256 * of_nat n :: u32) = 256 * n"
    using n by (rule unat_256_times)
  show "List.find (\<lambda>q. matches (heap st) (256 * of_nat n) (ex_nth_slice n) q \<and> live (heap st) q)
           (cs ! TABLE_IDX (256 * of_nat n) (capacity (g_shards st (SHARD_IDX (256 * of_nat n))))) =
         None"
    unfolding find_None_iff
  proof
    fix q
    show "\<not> (matches (heap st) (256 * of_nat n) (ex_nth_slice n) q \<and> live (heap st) q)"
    proof
      assume "matches (heap st) (256 * of_nat n) (ex_nth_slice n) q \<and> live (heap st) q"
      then obtain r where "heap st q = Some r" "interned_slice_refcount.hash r = 256 * of_nat n"
        by (auto simp: matches_def split: option.splits)
      with hb un show False
        by fastforce
    qed
  qed
  have "n < 63"
    using n by simp
  from malloc_first_free [OF dm this] show "heap st (gpr_malloc ex_extern_many (heap st)) = None"
    by (simp add: ex_extern_many_def)
qed

lemma static_intern_cases:
  assumes "max_static_metadata_hash_probe st \<noteq> - 1"
    and "slice_ok E st sl"
    and "\<forall>p r. refcount sl = Interned p \<and> heap st p = Some r \<and> refcnt r = 1 \<longrightarrow>
           chains_ok (heap st) (g_shards st (SHARD_IDX (interned_slice_refcount.hash r))) cs \<and>
           p \<in> set (concat cs) \<and>
           count (g_shards st (SHARD_IDX (interned_slice_refcount.hash r))) < 2 ^ 64"
    and "hs = gpr_murmur_hash3 E (content sl) (g_hash_seed st)"
  shows "\<exists>st' sl'.
           grpc_slice_static_intern E st sl = Some (Inr (st', sl')) \<and>
           (if \<not> grpc_is_static_metadata_string E sl \<and> static_probe E st hs sl 0 \<noteq> Some None
            then static_probe E st hs sl 0 = Some (Some sl') \<and>
                 sl' \<in> set (grpc_static_slice_table E) \<and> content sl' = content sl \<and>
                 grpc_slice_unref st sl = Some (Inr st')
            else sl' = sl \<and> st' = st) \<and>
           dom (heap st') \<subseteq> dom (heap st) \<and>
           (\<forall>k. capacity (g_shards st' k) = capacity (g_shards st k) \<and>
                count (g_shards st' k) \<le> count (g_shards st k))"
proof (cases "\<not> grpc_is_static_metadata_string E sl \<and> static_probe E st hs sl 0 \<noteq> Some None")
  case False
  then have "grpc_slice_static_intern E st sl = Some (Inr (st, sl))"
    using hash_ok [OF assms(2)] assms(4)
    by (auto simp: grpc_slice_static_intern_def)
  with False show ?thesis
    by auto
next
  case True
  then have ns: "\<not> grpc_is_static_metadata_string E sl"
    by simp
  have hash: "grpc_slice_hash E st sl = Inr hs"
    using hash_ok [OF assms(2) ns] assms(4) by simp
  from True static_probe_total [OF assms(1), of E hs sl 0]
  obtain t where t: "static_probe E st hs sl 0 = Some (Some t)"
    by (cases "static_probe E st hs sl 0") auto
  note hit = static_probe_hit [OF t]
  have si: "grpc_slice_static_intern E st sl =
        (case grpc_slice_unref st sl of
           None \<Rightarrow> None
         | Some (Inl e) \<Rightarrow> Some (Inl e)
         | Some (Inr st') \<Rightarrow> Some (Inr (st', t)))"
    by (simp add: grpc_slice_static_intern_def ns hash t)
  have "\<exists>st'. grpc_slice_unref st sl = Some (Inr st') \<and> dom (heap st') \<subseteq> dom (heap st) \<and>
          (\<forall>k. capacity (g_shards st' k) = capacity (g_shards st k) \<and>
               count (g_shards st' k) \<le> count (g_shards st k))"
  proof (cases "refcount sl")
    case (Interned p)
    then obtain r where r: "heap st p = Some r"
      using assms(2) by (auto simp: slice_ok_def split: option.splits)
    have u: "grpc_slice_unref st sl = interned_slice_unref st p"
      by (simp add: grpc_slice_unref_def Interned)
    show ?thesis
    proof (cases "refcnt r = 1")
      case True
      let ?k = "SHARD_IDX (interned_slice_refcount.hash r)"
      from assms(3) Interned r True
      have ok: "chains_ok (heap st) (g_shards st ?k) cs" and p: "p \<in> set (concat cs)"
        and c: "count (g_shards st ?k) < 2 ^ 64"
        by blast+
      from unref_last [OF ok r True c p] obtain st' where
        st': "interned_slice_unref st p = Some (Inr st')"
        and cnt: "count (g_shards st' ?k) = count (g_shards st ?k) - 1"
        by blast
      have "capacity (g_shards st' k) = capacity (g_shards st k) \<and>
            count (g_shards st' k) \<le> count (g_shards st k)" for k
        using unref_frame [OF st' r, of k] cnt by (cases "k = ?k") auto
      moreover have "dom (heap st') \<subseteq> dom (heap st)"
        using unref_frame [OF st' r, of 0] by simp
      ultimately show ?thesis
        using st' u by auto
    next
      case False
      let ?st' = "st\<lparr>heap := (heap st)(p \<mapsto> r\<lparr>refcnt := refcnt r + - 1\<rparr>)\<rparr>"
      have "interned_slice_unref st p = Some (Inr ?st')"
        using False r by (simp add: interned_slice_unref_def gpr_atm_fetch_add_def)
      moreover have "dom (heap ?st') \<subseteq> dom (heap st)"
        using r by auto
      ultimately show ?thesis
        using u by auto
    qed
  qed (simp_all add: grpc_slice_unref_def)
  then obtain st' where u: "grpc_slice_unref st sl = Some (Inr st')"
    and d: "dom (heap st') \<subseteq> dom (heap st)"
    and k: "\<forall>k. capacity (g_shards st' k) = capacity (g_shards st k) \<and>
               count (g_shards st' k) \<le> count (g_shards st k)"
    by blast
  have "grpc_slice_static_intern E st sl = Some (Inr (st', t))"
    by (simp add: si u)
  with True t hit u d k show ?thesis
    by auto
qed

lemma init_insert_first:
  assumes "j \<le> j0" and "j0 < static_metadata_hash_size E"
    and "idx (static_metadata_hash st
           (((unat (static_metadata_hash_values st i) + j0) mod 2 ^ 64)
              mod static_metadata_hash_size E)) = of_nat (GRPC_STATIC_MDSTR_COUNT E)"
    and "\<forall>j'. j \<le> j' \<and> j' < j0 \<longrightarrow>
           idx (static_metadata_hash st
             (((unat (static_metadata_hash_values st i) + j') mod 2 ^ 64)
                mod static_metadata_hash_size E)) \<noteq> of_nat (GRPC_STATIC_MDSTR_COUNT E)"
  shows "init_insert E st i j =
     st\<lparr>static_metadata_hash := (static_metadata_hash st)
           (((unat (static_metadata_hash_values st i) + j0) mod 2 ^ 64)
              mod static_metadata_hash_size E :=
              \<lparr>static_metadata_hash_ent.hash = static_metadata_hash_values st i,
               idx = of_nat i\<rparr>),
        max_static_metadata_hash_probe :=
          (if j0 > unat (max_static_metadata_hash_probe st) then of_nat j0
           else max_static_metadata_hash_probe st)\<rparr>"
  using assms(1,4)
proof (induction "j0 - j" arbitrary: j)
  case 0
  then have "j = j0"
    by simp
  show ?case
    unfolding \<open>j = j0\<close> using assms(2,3) by (rule init_insert_free)
next
  case (Suc d)
  then have lt: "j < j0"
    by simp
  then have "j < static_metadata_hash_size E"
    using assms(2) by simp
  moreover have "idx (static_metadata_hash st
             (((unat (static_metadata_hash_values st i) + j) mod 2 ^ 64)
                mod static_metadata_hash_size E)) \<noteq> of_nat (GRPC_STATIC_MDSTR_COUNT E)"
    using Suc.prems(2) lt by simp
  ultimately have "init_insert E st i j = init_insert E st i (Suc j)"
    by (rule init_insert_taken)
  moreover have "d = j0 - Suc j" "Suc j \<le> j0"
    using Suc.hyps(2) lt by simp_all
  moreover have "\<forall>j'. Suc j \<le> j' \<and> j' < j0 \<longrightarrow>
           idx (static_metadata_hash st
             (((unat (static_metadata_hash_values st i) + j') mod 2 ^ 64)
                mod static_metadata_hash_size E)) \<noteq> of_nat (GRPC_STATIC_MDSTR_COUNT E)"
    using Suc.prems(2) by simp
  ultimately show ?case
    using Suc.hyps(1) [of "Suc j"] by simp
qed

lemma probe_inj:
  assumes "(a + j) mod n = (a + j') mod n" and "j < n" and "j' < n"
  shows "j = (j' :: nat)"
proof -
  have *: "x = y" if "x \<le> y" "(a + x) mod n = (a + y) mod n" "y < n" for x y :: nat
  proof -
    have "a + x \<le> a + y"
      using that(1) by simp
    from mod_eq_dvd_iff_nat [OF this, of n] that(2) have "n dvd (a + y) - (a + x)"
      by simp
    then have "n dvd y - x"
      by simp
    moreover have "y - x < n"
      using that(3) by simp
    ultimately have "y - x = 0"
      by (meson dvd_imp_le not_less zero_less_iff_neq_zero)
    with that(1) show ?thesis
      by simp
  qed
  show ?thesis
  proof (cases "j \<le> j'")
    case True
    from * [OF True assms(1,3)] show ?thesis .
  next
    case False
    then have "j' \<le> j"
      by simp
    from * [OF this assms(1) [symmetric] assms(2)] show ?thesis
      by simp
  qed
qed

lemma free_slot_exists:
  assumes "card {s. s < n \<and> P s} < n"
  shows "\<exists>j<n. \<not> P ((a + j) mod n)"
proof (rule ccontr)
  assume "\<not> (\<exists>j<n. \<not> P ((a + j) mod n))"
  then have all: "\<forall>j<n. P ((a + j) mod n)"
    by simp
  have n: "0 < n"
    using assms by (cases n) simp_all
  have "(\<lambda>j. (a + j) mod n) ` {0..<n} \<subseteq> {s. s < n \<and> P s}"
    using all n by auto
  then have "card ((\<lambda>j. (a + j) mod n) ` {0..<n}) \<le> card {s. s < n \<and> P s}"
    by (intro card_mono) simp_all
  moreover have "inj_on (\<lambda>j. (a + j) mod n) {0..<n}"
    by (rule inj_onI) (auto intro: probe_inj)
  then have "card ((\<lambda>j. (a + j) mod n) ` {0..<n}) = n"
    by (simp add: card_image)
  ultimately show False
    using assms by simp
qed

lemma unat_of_nat_u32: "i < 2 ^ 32 \<Longrightarrow> unat (of_nat i :: u32) = i"
  by (simp add: unat_of_nat)

lemma built_step:
  assumes b: "built E seed m st" and m: "m < GRPC_STATIC_MDSTR_COUNT E"
    and n: "GRPC_STATIC_MDSTR_COUNT E < 2 ^ 30"
  shows "built E seed (Suc m) (init_static_string E m st)"
proof -
  let ?n = "GRPC_STATIC_MDSTR_COUNT E"
  let ?size = "static_metadata_hash_size E"
  let ?h = "static_hash E seed m"
  let ?st1 = "st\<lparr>static_metadata_hash_values := (static_metadata_hash_values st)(m := ?h)\<rparr>"
  let ?P = "\<lambda>s. idx (static_metadata_hash st s) \<noteq> of_nat ?n"
  let ?slot = "\<lambda>j. (unat ?h + j) mod ?size"
  from b have seed: "g_hash_seed st = seed"
    and mx: "unat (max_static_metadata_hash_probe st) \<le> ?size"
    and cd: "card {s. s < ?size \<and> ?P s} \<le> m"
    and pl: "\<forall>i<m. placed E seed st i"
    by (simp_all add: built_def)
  have size: "?size = 4 * ?n"
    by (simp add: static_metadata_hash_size_def)
  have s32: "?size < 2 ^ 32"
    using n by (simp add: size)
  have is1: "init_static_string E m st = init_insert E ?st1 m 0"
    by (simp add: init_static_string_def grpc_slice_default_hash_impl_def static_hash_def seed)
  have "card {s. s < ?size \<and> ?P s} < ?size"
    using cd m by (simp add: size)
  from free_slot_exists [OF this, of "unat ?h"] have ex: "\<exists>j. j < ?size \<and> \<not> ?P (?slot j)"
    by blast
  define j0 where "j0 = (LEAST j. j < ?size \<and> \<not> ?P (?slot j))"
  have j0: "j0 < ?size" "\<not> ?P (?slot j0)"
    using LeastI_ex [OF ex] by (simp_all add: j0_def)
  have before: "?P (?slot j')" if "j' < j0" for j'
    using not_less_Least [of j' "\<lambda>j. j < ?size \<and> \<not> ?P (?slot j)"] that j0(1)
    by (auto simp: j0_def)
  have nowrap: "(unat ?h + j) mod 2 ^ 64 = unat ?h + j" if "j < ?size" for j
  proof -
    have "unat ?h < 2 ^ 32"
      using unsigned_less [of ?h] by simp
    then have "unat ?h + j < 2 ^ 64"
      using that s32 by simp
    then show ?thesis
      by simp
  qed
  have v1: "static_metadata_hash_values ?st1 m = ?h"
    by simp
  have "init_insert E ?st1 m 0 =
     ?st1\<lparr>static_metadata_hash := (static_metadata_hash ?st1)
           (((unat (static_metadata_hash_values ?st1 m) + j0) mod 2 ^ 64) mod ?size :=
              \<lparr>static_metadata_hash_ent.hash = static_metadata_hash_values ?st1 m,
               idx = of_nat m\<rparr>),
        max_static_metadata_hash_probe :=
          (if j0 > unat (max_static_metadata_hash_probe ?st1) then of_nat j0
           else max_static_metadata_hash_probe ?st1)\<rparr>"
  proof (rule init_insert_first)
    show "0 \<le> j0"
      by simp
    show "j0 < ?size"
      by (rule j0)
    show "idx (static_metadata_hash ?st1
           (((unat (static_metadata_hash_values ?st1 m) + j0) mod 2 ^ 64) mod ?size)) = of_nat ?n"
      unfolding v1 nowrap [OF j0(1)] using j0(2) by simp
    show "\<forall>j'. 0 \<le> j' \<and> j' < j0 \<longrightarrow>
           idx (static_metadata_hash ?st1
             (((unat (static_metadata_hash_values ?st1 m) + j') mod 2 ^ 64) mod ?size)) \<noteq> of_nat ?n"
    proof (intro allI impI)
      fix j'
      assume a: "0 \<le> j' \<and> j' < j0"
      then have "j' < ?size"
        using j0(1) by simp
      from nowrap [OF this] before [of j'] a
      show "idx (static_metadata_hash ?st1
             (((unat (static_metadata_hash_values ?st1 m) + j') mod 2 ^ 64) mod ?size)) \<noteq> of_nat ?n"
        unfolding v1 by simp
    qed
  qed
  then have res: "init_static_string E m st =
     ?st1\<lparr>static_metadata_hash := (static_metadata_hash st)
           (?slot j0 := \<lparr>static_metadata_hash_ent.hash = ?h, idx = of_nat m\<rparr>),
        max_static_metadata_hash_probe :=
          (if j0 > unat (max_static_metadata_hash_probe st) then of_nat j0
           else max_static_metadata_hash_probe st)\<rparr>"
    unfolding is1 v1 nowrap [OF j0(1)] by simp
  let ?tab' = "(static_metadata_hash st)
           (?slot j0 := \<lparr>static_metadata_hash_ent.hash = ?h, idx = of_nat m\<rparr>)"
  let ?max' = "if j0 > unat (max_static_metadata_hash_probe st) then of_nat j0
           else max_static_metadata_hash_probe st"
  have uj: "unat (of_nat j0 :: u32) = j0"
    using j0(1) s32 by (intro unat_of_nat_u32) simp
  have umax: "unat ?max' = max j0 (unat (max_static_metadata_hash_probe st))"
    using uj by simp
  have 1: "unat ?max' \<le> ?size"
    unfolding umax using j0(1) mx by simp
  have "{s. s < ?size \<and> idx (?tab' s) \<noteq> of_nat ?n} \<subseteq> insert (?slot j0) {s. s < ?size \<and> ?P s}"
    by auto
  then have "card {s. s < ?size \<and> idx (?tab' s) \<noteq> of_nat ?n}
               \<le> card (insert (?slot j0) {s. s < ?size \<and> ?P s})"
    by (intro card_mono) simp_all
  also have "\<dots> \<le> Suc (card {s. s < ?size \<and> ?P s})"
    by (simp add: card_insert_if)
  finally have 2: "card {s. s < ?size \<and> idx (?tab' s) \<noteq> of_nat ?n} \<le> Suc m"
    using cd by simp
  have 3: "placed E seed (init_static_string E m st) i" if "i < Suc m" for i
  proof (cases "i = m")
    case True
    have "j0 \<le> unat ?max'"
      unfolding umax by simp
    moreover have "?tab' (?slot j0) = \<lparr>static_metadata_hash_ent.hash = ?h, idx = of_nat m\<rparr>"
      by simp
    ultimately show ?thesis
      unfolding placed_def res True using j0(1) by (intro exI [of _ j0]) simp
  next
    case False
    then have im: "i < m"
      using that by simp
    with pl obtain j where j: "j \<le> unat (max_static_metadata_hash_probe st)" "j < ?size"
      and e: "static_metadata_hash st ((unat (static_hash E seed i) + j) mod ?size) =
                \<lparr>static_metadata_hash_ent.hash = static_hash E seed i, idx = of_nat i\<rparr>"
      unfolding placed_def by blast
    have "i < 2 ^ 32" "?n < 2 ^ 32" "i \<noteq> ?n"
      using im m n by simp_all
    then have "(of_nat i :: u32) \<noteq> of_nat ?n"
      by (metis unat_of_nat_u32)
    then have "?P ((unat (static_hash E seed i) + j) mod ?size)"
      using e by simp
    then have "(unat (static_hash E seed i) + j) mod ?size \<noteq> ?slot j0"
      using j0(2) by auto
    then have "?tab' ((unat (static_hash E seed i) + j) mod ?size) =
                \<lparr>static_metadata_hash_ent.hash = static_hash E seed i, idx = of_nat i\<rparr>"
      using e by simp
    moreover have "j \<le> unat ?max'"
      unfolding umax using j(1) by simp
    ultimately show ?thesis
      unfolding placed_def res using j(2) by (intro exI [of _ j]) simp
  qed
  show ?thesis
    unfolding built_def
  proof (intro conjI allI impI)
    show "g_hash_seed (init_static_string E m st) = seed"
      by (simp add: res seed)
    show "unat (max_static_metadata_hash_probe (init_static_string E m st)) \<le> ?size"
      using 1 by (simp add: res)
    show "card {s. s < ?size \<and>
              idx (static_metadata_hash (init_static_string E m st) s) \<noteq> of_nat ?n} \<le> Suc m"
      using 2 by (simp add: res)
    show "placed E seed (init_static_string E m st) i" if "i < Suc m" for i
      using that by (rule 3)
  qed
qed

lemma built_fold:
  assumes "built E seed 0 st" and "GRPC_STATIC_MDSTR_COUNT E < 2 ^ 30"
  shows "m \<le> GRPC_STATIC_MDSTR_COUNT E \<Longrightarrow>
         built E seed m (fold (init_static_string E) [0..<m] st)"
proof (induction m)
  case 0
  then show ?case
    using assms(1) by simp
next
  case (Suc m)
  then have "built E seed m (fold (init_static_string E) [0..<m] st)"
    and "m < GRPC_STATIC_MDSTR_COUNT E"
    by simp_all
  from built_step [OF this assms(2)] show ?case
    by simp
qed

lemma built_init:
  assumes "GRPC_STATIC_MDSTR_COUNT E < 2 ^ 30"
  shows "built E (g_hash_seed (grpc_slice_intern_init E now st0)) (GRPC_STATIC_MDSTR_COUNT E)
           (grpc_slice_intern_init E now st0)"
proof -
  let ?n = "GRPC_STATIC_MDSTR_COUNT E"
  let ?size = "static_metadata_hash_size E"
  let ?st1 = "if \<not> g_forced_hash_seed st0 then st0\<lparr>g_hash_seed := now\<rparr> else st0"
  let ?st3 = "fold (init_clear_slot E) [0..<?size] (fold init_shard [0..<SHARD_COUNT] ?st1)"
  let ?st4 = "?st3\<lparr>max_static_metadata_hash_probe := 0\<rparr>"
  have i: "grpc_slice_intern_init E now st0 = fold (init_static_string E) [0..<?n] ?st4"
    by (simp add: grpc_slice_intern_init_def Let_def)
  have seed: "g_hash_seed (grpc_slice_intern_init E now st0) = g_hash_seed ?st4"
    unfolding i by (simp add: init_static_frame)
  have "{s. s < ?size \<and> idx (static_metadata_hash ?st4 s) \<noteq> of_nat ?n} = {}"
    by (auto simp: init_clear_table)
  then have "built E (g_hash_seed ?st4) 0 ?st4"
    by (simp add: built_def)
  from built_fold [OF this assms order_refl]
  have f: "built E (g_hash_seed ?st4) ?n (fold (init_static_string E) [0..<?n] ?st4)" .
  show ?thesis
    by (simp only: seed) (simp only: i f)
qed

lemma static_probe_finds:
  assumes "j \<le> unat (max_static_metadata_hash_probe st)"
    and "unat hs + unat (max_static_metadata_hash_probe st) < 2 ^ 32"
    and "static_metadata_hash st ((unat hs + j) mod static_metadata_hash_size E) =
           \<lparr>static_metadata_hash_ent.hash = hs, idx = of_nat i\<rparr>"
    and "i < GRPC_STATIC_MDSTR_COUNT E" and "GRPC_STATIC_MDSTR_COUNT E < 2 ^ 30"
    and "content (grpc_static_slice_table E ! i) = content sl"
  shows "i0 \<le> j \<Longrightarrow> \<exists>t. static_probe E st hs sl (of_nat i0) = Some (Some t)"
proof (induction "j - i0" arbitrary: i0)
  case 0
  then have e: "i0 = j"
    by simp
  have b: "j < 2 ^ 32"
    using assms(1,2) by simp
  then have uj: "unat (of_nat j :: u32) = j"
    by (rule unat_of_nat_u32)
  have le: "(of_nat j :: u32) \<le> max_static_metadata_hash_probe st"
    using assms(1) by (simp add: word_le_nat_alt uj)
  have "unat hs + unat (of_nat j :: u32) < 2 ^ LENGTH(32)"
    using assms(1,2) uj by simp
  then have slot: "unat (hs + of_nat j) = unat hs + j"
    using uj by (simp add: unat_add_lem [THEN iffD1])
  have ui: "unat (of_nat i :: u32) = i"
    using assms(4,5) by (intro unat_of_nat_u32) simp
  show ?case
    unfolding e
    by (subst static_probe.simps)
      (simp add: le slot assms(3) ui assms(4) grpc_slice_cmp_def assms(6) Let_def)
next
  case (Suc d)
  then have lt: "i0 < j"
    by simp
  have b: "i0 < 2 ^ 32 - 1"
    using assms(1,2) lt by simp
  then have ui0: "unat (of_nat i0 :: u32) = i0"
    by (intro unat_of_nat_u32) simp
  have le: "(of_nat i0 :: u32) \<le> max_static_metadata_hash_probe st"
    using assms(1) lt by (simp add: word_le_nat_alt ui0)
  have ne: "(of_nat i0 :: u32) \<noteq> - 1"
  proof
    assume "(of_nat i0 :: u32) = - 1"
    then have "(of_nat (Suc i0) :: u32) = 0"
      by simp
    then have "unat (of_nat (Suc i0) :: u32) = 0"
      by simp
    moreover have "unat (of_nat (Suc i0) :: u32) = Suc i0"
      using b by (intro unat_of_nat_u32) simp
    ultimately show False
      by simp
  qed
  let ?ent = "static_metadata_hash st (unat (hs + of_nat i0) mod static_metadata_hash_size E)"
  show ?case
  proof (cases "static_metadata_hash_ent.hash ?ent = hs \<and>
        unat (idx ?ent) < GRPC_STATIC_MDSTR_COUNT E \<and>
        grpc_slice_cmp (grpc_static_slice_table E ! unat (idx ?ent)) sl = 0")
    case True
    then show ?thesis
      by (subst static_probe.simps) (simp add: le Let_def)
  next
    case False
    with le ne have "static_probe E st hs sl (of_nat i0) = static_probe E st hs sl (of_nat i0 + 1)"
      by (intro static_probe_next)
    moreover have "d = j - Suc i0" "Suc i0 \<le> j"
      using Suc.hyps(2) lt by simp_all
    from Suc.hyps(1) [OF this] have "\<exists>t. static_probe E st hs sl (of_nat (Suc i0)) = Some (Some t)" .
    ultimately show ?thesis
      by (simp add: add.commute)
  qed
qed

lemma built_probe_bound:
  assumes "built E seed m st" and "GRPC_STATIC_MDSTR_COUNT E < 2 ^ 30"
  shows "max_static_metadata_hash_probe st \<noteq> - 1"
proof
  assume "max_static_metadata_hash_probe st = - 1"
  then have "max_static_metadata_hash_probe st + 1 = 0"
    by simp
  moreover have "unat (max_static_metadata_hash_probe st) \<le> 4 * GRPC_STATIC_MDSTR_COUNT E"
    using assms(1) by (simp add: built_def static_metadata_hash_size_def)
  then have "unat (max_static_metadata_hash_probe st) + unat (1 :: u32) < 2 ^ LENGTH(32)"
    using assms(2) by simp
  then have "unat (max_static_metadata_hash_probe st + 1) =
             unat (max_static_metadata_hash_probe st) + unat (1 :: u32)"
    by (simp only: unat_add_lem [THEN iffD1])
  ultimately show False
    by simp
qed

lemma built_cong:
  assumes "built E seed m st"
    and "static_metadata_hash st' = static_metadata_hash st"
    and "max_static_metadata_hash_probe st' = max_static_metadata_hash_probe st"
    and "g_hash_seed st' = g_hash_seed st"
  shows "built E seed m st'"
  using assms by (simp add: built_def placed_def)

lemma ex_booted_sub_fields:
  "static_metadata_hash ex_booted_sub =
     static_metadata_hash (grpc_slice_intern_init ex_extern 0 ex_power_on)"
  "max_static_metadata_hash_probe ex_booted_sub =
     max_static_metadata_hash_probe (grpc_slice_intern_init ex_extern 0 ex_power_on)"
  "g_hash_seed ex_booted_sub = g_hash_seed (grpc_slice_intern_init ex_extern 0 ex_power_on)"
  "heap ex_booted_sub = [1 \<mapsto> ex_block 1024 1 None [7, 7, 7, 1]]"
  "g_shards ex_booted_sub 0 =
     \<lparr>strs = [Some 1, None, None, None, None, None, None, None], count = 1, capacity = 8\<rparr>"
  by (simp_all add: ex_booted_sub_def ex_booted_def)

lemma ex_booted_sub_chains_ok:
  "chains_ok (heap ex_booted_sub) (g_shards ex_booted_sub 0) ex_chains_sub"
  unfolding ex_booted_sub_fields
  by (auto simp: chains_ok_def ex_chains_sub_def ex_block_def hash_of_def ex_idx_1024 less_Suc_eq)

section \<open>The claims\<close>

text \<open>
  C6. \<open>grow_shard\<close> on a shard that satisfies the chain invariant returns, doubles the
  capacity, keeps the count, and leaves a shard whose chains hold the same set of blocks,
  every block in the bucket \<open>TABLE_IDX\<close> of its hash for the new capacity. No block is
  allocated or freed and no field of a block other than \<open>bucket_next\<close> changes (content,
  length, hash and reference counter are untouched). After the growth, the lookup of the
  content of any live block of the shard returns that same block (its refcount pointer and
  payload pointer), with one more reference.
\<close>

theorem grow_shard_preserves:
  assumes ok: "chains_ok h shard cs" and u: "unique_live h cs"
  shows "\<exists>h' shard' cs'.
           grow_shard h shard = Some (Inr (h', shard')) \<and>
           capacity shard' = 2 * capacity shard \<and> count shard' = count shard \<and>
           chains_ok h' shard' cs' \<and> set (concat cs') = set (concat cs) \<and>
           same_blocks h h' \<and>
           (\<forall>p\<in>set (concat cs). \<forall>r sl.
              h p = Some r \<and> refcnt r \<noteq> 0 \<and> content sl = take (slen r) (payload r) \<longrightarrow>
              grpc_slice_intern_locked E h' shard' (interned_slice_refcount.hash r) sl =
                Some (Inr (add_ref h' p, shard', materialize p r)))"
proof -
  from grow_shard_ok [OF ok] obtain h' strtab where
    g: "grow_shard h shard = Some (Inr (h', shard\<lparr>strs := strtab, capacity := capacity shard * 2\<rparr>))"
    and ok': "chains_ok h' (shard\<lparr>strs := strtab, capacity := capacity shard * 2\<rparr>)
                (relinked (hash_of h) (capacity shard * 2) cs)"
    and sb: "same_blocks h h'"
    by (elim exE conjE)
  let ?shard' = "shard\<lparr>strs := strtab, capacity := capacity shard * 2\<rparr>"
  let ?cs' = "relinked (hash_of h) (capacity shard * 2) cs"
  have cap: "0 < capacity shard * 2"
    using chains_ok_cap [OF ok] by simp
  have s: "set (concat ?cs') = set (concat cs)"
    using cap by (rule set_relinked)
  have u': "unique_live h' ?cs'"
    using sb s u by (rule unique_live_same_blocks)
  have look: "grpc_slice_intern_locked E h' ?shard' (interned_slice_refcount.hash r) sl =
                Some (Inr (add_ref h' p, ?shard', materialize p r))"
    if p: "p \<in> set (concat cs)" and r: "h p = Some r" and l: "refcnt r \<noteq> 0"
      and c: "content sl = take (slen r) (payload r)" for p r sl
  proof -
    from same_blocks_cases [OF sb, of p] r obtain r' where r': "h' p = Some r'"
      and f: "slen r' = slen r" "refcnt r' = refcnt r"
        "interned_slice_refcount.hash r' = interned_slice_refcount.hash r" "payload r' = payload r"
      by auto
    have p': "p \<in> set (concat ?cs')"
      using p s by simp
    have "grpc_slice_intern_locked E h' ?shard' (interned_slice_refcount.hash r') sl =
            Some (Inr (add_ref h' p, ?shard', materialize p r'))"
      using ok' u' p' r' by (rule locked_lookup) (simp_all add: f l c)
    moreover have "materialize p r' = materialize p r"
      by (simp add: materialize_def f)
    ultimately show ?thesis
      by (simp add: f)
  qed
  show ?thesis
    apply (rule exI [of _ h'], rule exI [of _ ?shard'], rule exI [of _ ?cs'])
    using g ok' s sb look by simp
qed

theorem grow_shard_preserves_witness:
  "chains_ok ex_heap ex_shard ex_chains \<and> unique_live ex_heap ex_chains \<and>
   (\<exists>h' shard' cs'.
      grow_shard ex_heap ex_shard = Some (Inr (h', shard')) \<and>
      capacity shard' = 16 \<and> count shard' = 2 \<and>
      chains_ok h' shard' cs' \<and> set (concat cs') = {1, 2} \<and>
      same_blocks ex_heap h' \<and>
      (\<forall>sl. content sl = [2] \<longrightarrow>
         grpc_slice_intern_locked ex_extern h' shard' 256 sl =
           Some (Inr (add_ref h' 2, shard', materialize 2 (ex_block 256 2 None [2])))))"
proof -
  have 2: "(2::nat) \<in> set (concat ex_chains)" and c: "set (concat ex_chains) = {1, 2}"
    and h2: "ex_heap 2 = Some (ex_block 256 2 None [2])"
    by (auto simp: ex_chains_def ex_heap_def)
  from grow_shard_preserves [OF ex_chains_ok ex_unique_live, of ex_extern] obtain h' shard' cs' where
    r: "grow_shard ex_heap ex_shard = Some (Inr (h', shard'))"
      "capacity shard' = 2 * capacity ex_shard" "count shard' = count ex_shard"
      "chains_ok h' shard' cs'" "set (concat cs') = set (concat ex_chains)"
      "same_blocks ex_heap h'"
    and l: "\<forall>p\<in>set (concat ex_chains). \<forall>r sl.
              ex_heap p = Some r \<and> refcnt r \<noteq> 0 \<and> content sl = take (slen r) (payload r) \<longrightarrow>
              grpc_slice_intern_locked ex_extern h' shard' (interned_slice_refcount.hash r) sl =
                Some (Inr (add_ref h' p, shard', materialize p r))"
    by (elim exE conjE)
  have "\<forall>sl. content sl = [2] \<longrightarrow>
         grpc_slice_intern_locked ex_extern h' shard' 256 sl =
           Some (Inr (add_ref h' 2, shard', materialize 2 (ex_block 256 2 None [2])))"
  proof (intro allI impI)
    fix sl :: grpc_slice
    assume "content sl = [2]"
    then show "grpc_slice_intern_locked ex_extern h' shard' 256 sl =
           Some (Inr (add_ref h' 2, shard', materialize 2 (ex_block 256 2 None [2])))"
      using l [rule_format, OF 2, of "ex_block 256 2 None [2]" sl] h2
      by (simp add: ex_block_def)
  qed
  then show ?thesis
    using r c ex_chains_ok ex_unique_live by (auto simp: ex_shard_def)
qed

text \<open>
  C4, as the code has it. The claim as stated fails: \<open>interned_slice_unref\<close> first brings
  the counter to 0 and only then calls \<open>interned_slice_destroy\<close>, so in the state that
  \<open>interned_slice_destroy\<close> receives, the block is still the head of its bucket with a
  reference counter of 0 (this is the state that the guard of lines 220-226 of
  \<open>grpc_slice_intern\<close> is written for).
\<close>

theorem unref_zero_reachable_counterexample:
  "interned_slice_unref ex_state 1 =
     interned_slice_destroy (ex_state\<lparr>heap := ex_heap(1 \<mapsto> ex_block 0 0 (Some 2) [])\<rparr>) 1 \<and>
   strs (g_shards (ex_state\<lparr>heap := ex_heap(1 \<mapsto> ex_block 0 0 (Some 2) [])\<rparr>) 0) ! 0 = Some 1 \<and>
   heap (ex_state\<lparr>heap := ex_heap(1 \<mapsto> ex_block 0 0 (Some 2) [])\<rparr>) 1 =
     Some (ex_block 0 0 (Some 2) []) \<and>
   refcnt (ex_block 0 0 (Some 2) []) = 0"
  by (simp add: interned_slice_unref_def gpr_atm_fetch_add_def ex_state_def ex_heap_def
        ex_block_def ex_shard_def)

text \<open>
  C4, amended. Let block \<open>s\<close> have a reference counter of 1, in a shard that satisfies the
  chain invariant and whose other blocks are live. If \<open>s\<close> is on the chain of bucket
  \<open>TABLE_IDX\<close> of its hash, \<open>interned_slice_unref\<close> returns; the block is freed and is on
  no chain any more, the chains are otherwise unchanged and satisfy the invariant, the
  count of the shard is one less, the shard lock was taken and released, and every block
  still on a chain is live. If \<open>s\<close> is not on that chain, the call does not return a
  state: it ends in an invalid read.
\<close>

theorem unref_last_release:
  assumes "heap st s = Some r" and "refcnt r = 1"
    and "k = SHARD_IDX (interned_slice_refcount.hash r)"
    and "i = TABLE_IDX (interned_slice_refcount.hash r) (capacity (g_shards st k))"
    and "chains_ok (heap st) (g_shards st k) cs"
    and "count (g_shards st k) < 2 ^ 64"
    and "\<forall>q\<in>set (concat cs). q \<noteq> s \<longrightarrow> live (heap st) q"
  shows "(s \<in> set (cs ! i) \<longrightarrow>
           (\<exists>st'. interned_slice_unref st s = Some (Inr st') \<and>
                  heap st' s = None \<and>
                  chains_ok (heap st') (g_shards st' k) (cs[i := remove1 s (cs ! i)]) \<and>
                  s \<notin> set (concat (cs[i := remove1 s (cs ! i)])) \<and>
                  count (g_shards st' k) = count (g_shards st k) - 1 \<and>
                  trace st' = trace st @ [Mu_lock k, Mu_unlock k] \<and>
                  (\<forall>q\<in>set (concat (cs[i := remove1 s (cs ! i)])). live (heap st') q))) \<and>
         (s \<notin> set (cs ! i) \<longrightarrow> interned_slice_unref st s = Some (Inl Invalid_pointer))"
proof (intro conjI impI)
  note ok = assms(5) [unfolded assms(3)]
  let ?cs' = "cs[i := remove1 s (cs ! i)]"
  assume sin: "s \<in> set (cs ! i)"
  have il: "i < length cs"
    unfolding assms(4) assms(3)
    using chains_ok_length [OF ok] TABLE_IDX_less [OF chains_ok_cap [OF ok]] by simp
  have s: "s \<in> set (concat cs)"
    using sin nth_subset_concat [OF il] by blast
  from unref_last [OF ok assms(1,2) assms(6) [unfolded assms(3)] s]
  obtain st' where u: "interned_slice_unref st s = Some (Inr st')" and f: "heap st' s = None"
    and ok': "chains_ok (heap st') (g_shards st' k) ?cs'"
    and c: "count (g_shards st' k) = count (g_shards st k) - 1"
    and t: "trace st' = trace st @ [Mu_lock k, Mu_unlock k]"
    and l: "\<forall>q. q \<noteq> s \<longrightarrow> live (heap st') q = live (heap st) q"
    unfolding assms(3) [symmetric] assms(4) [symmetric] by (elim exE conjE)
  have sn: "s \<notin> set (concat ?cs')"
    using chains_ok_allocated [OF ok', of s] f by blast
  have "live (heap st') q" if q: "q \<in> set (concat ?cs')" for q
  proof -
    have "q \<in> set (concat cs)"
      using q set_concat_remove1 [OF il, of s] by blast
    moreover have "q \<noteq> s"
      using q sn by blast
    ultimately show ?thesis
      using assms(7) l by blast
  qed
  then show "\<exists>st'. interned_slice_unref st s = Some (Inr st') \<and>
                  heap st' s = None \<and>
                  chains_ok (heap st') (g_shards st' k) ?cs' \<and>
                  s \<notin> set (concat ?cs') \<and>
                  count (g_shards st' k) = count (g_shards st k) - 1 \<and>
                  trace st' = trace st @ [Mu_lock k, Mu_unlock k] \<and>
                  (\<forall>q\<in>set (concat ?cs'). live (heap st') q)"
    using u f ok' sn c t by (intro exI [of _ st']) simp
next
  assume "s \<notin> set (cs ! i)"
  then show "interned_slice_unref st s = Some (Inl Invalid_pointer)"
    unfolding assms(4) assms(3)
    using assms(5) [unfolded assms(3)] assms(1,2) by (intro unref_missing)
qed

theorem unref_last_release_witness:
  "heap ex_state 1 = Some (ex_block 0 1 (Some 2) []) \<and> refcnt (ex_block 0 1 (Some 2) []) = 1 \<and>
   chains_ok (heap ex_state) (g_shards ex_state 0) ex_chains \<and> 1 \<in> set (ex_chains ! 0) \<and>
   (\<exists>st'. interned_slice_unref ex_state 1 = Some (Inr st') \<and> heap st' 1 = None \<and>
          chains_ok (heap st') (g_shards st' 0) [[2], [], [], [], [], [], [], []] \<and>
          count (g_shards st' 0) = 1 \<and> trace st' = [Mu_lock 0, Mu_unlock 0] \<and>
          live (heap st') 2) \<and>
   9 \<notin> set (ex_chains ! 0) \<and>
   interned_slice_unref ex_state_stray 9 = Some (Inl Invalid_pointer)"
proof -
  have h: "heap ex_state 1 = Some (ex_block 0 1 (Some 2) [])" "refcnt (ex_block 0 1 (Some 2) []) = 1"
    and k: "0 = SHARD_IDX (interned_slice_refcount.hash (ex_block 0 1 (Some 2) []))"
    and i: "0 = TABLE_IDX (interned_slice_refcount.hash (ex_block 0 1 (Some 2) []))
              (capacity (g_shards ex_state 0))"
    and c: "count (g_shards ex_state 0) < 2 ^ 64"
    and a: "\<forall>q\<in>set (concat ex_chains). q \<noteq> 1 \<longrightarrow> live (heap ex_state) q"
    and m: "1 \<in> set (ex_chains ! 0)"
    by (simp_all add: ex_state_def ex_heap_def ex_block_def ex_shard_def ex_chains_def
          SHARD_IDX_def TABLE_IDX_def LOG2_SHARD_COUNT_def live_def)
  have ok: "chains_ok (heap ex_state) (g_shards ex_state 0) ex_chains"
    unfolding ex_state_shard0 ex_state_heap by (rule ex_chains_ok)
  have h9: "heap ex_state_stray 9 = Some (ex_block 0 1 None [])" "refcnt (ex_block 0 1 None []) = 1"
    and k9: "0 = SHARD_IDX (interned_slice_refcount.hash (ex_block 0 1 None []))"
    and i9: "0 = TABLE_IDX (interned_slice_refcount.hash (ex_block 0 1 None []))
              (capacity (g_shards ex_state_stray 0))"
    and c9: "count (g_shards ex_state_stray 0) < 2 ^ 64"
    and a9: "\<forall>q\<in>set (concat ex_chains). q \<noteq> 9 \<longrightarrow> live (heap ex_state_stray) q"
    and m9: "9 \<notin> set (ex_chains ! 0)"
    by (simp_all add: ex_state_stray_def ex_state_def ex_heap_def ex_block_def ex_shard_def
          ex_chains_def SHARD_IDX_def TABLE_IDX_def LOG2_SHARD_COUNT_def live_def)
  have r: "ex_chains[0 := remove1 1 (ex_chains ! 0)] = [[2], [], [], [], [], [], [], []]"
    by (simp add: ex_chains_def)
  from unref_last_release [OF h k i ok c a] m
  obtain st' where "interned_slice_unref ex_state 1 = Some (Inr st')" "heap st' 1 = None"
    "chains_ok (heap st') (g_shards st' 0) [[2], [], [], [], [], [], [], []]"
    "count (g_shards st' 0) = count (g_shards ex_state 0) - 1"
    "trace st' = trace ex_state @ [Mu_lock 0, Mu_unlock 0]"
    "\<forall>q\<in>set (concat [[2::nat], [], [], [], [], [], [], []]). live (heap st') q"
    unfolding r by blast
  then have 1: "\<exists>st'. interned_slice_unref ex_state 1 = Some (Inr st') \<and> heap st' 1 = None \<and>
          chains_ok (heap st') (g_shards st' 0) [[2], [], [], [], [], [], [], []] \<and>
          count (g_shards st' 0) = 1 \<and> trace st' = [Mu_lock 0, Mu_unlock 0] \<and>
          live (heap st') 2"
    by (intro exI [of _ st']) (simp add: ex_state_def ex_shard_def)
  from unref_last_release [OF h9 k9 i9 ex_stray_chains_ok c9 a9] m9
  have 2: "interned_slice_unref ex_state_stray 9 = Some (Inl Invalid_pointer)"
    by blast
  show ?thesis
    using h ok m 1 m9 2 by (intro conjI)
qed



text \<open>
  C10. Let \<open>p\<close> be a live block on a chain of its shard, whose content is no static
  string, in a state where the live blocks of the shard are unique for their content.
  The slice \<open>materialize p\<close> takes the first branch of \<open>interned_slice_hash\<close>, so its hash is
  the hash stored in the block when it was created; \<open>grpc_slice_intern\<close> of that slice
  returns the same slice (same refcount pointer, same bytes pointer), allocates nothing,
  changes no shard, and adds exactly one to the reference counter of the block.
\<close>

theorem reintern_idempotent:
  assumes "chains_ok (heap st) (g_shards st (SHARD_IDX (interned_slice_refcount.hash r))) cs"
    and "unique_live (heap st) cs"
    and "p \<in> set (concat cs)" and "heap st p = Some r" and "refcnt r \<noteq> 0"
    and "slen r = length (payload r)"
    and "\<not> grpc_is_static_metadata_string E (materialize p r)"
    and "\<forall>t\<in>set (grpc_static_slice_table E). content t \<noteq> payload r"
    and "max_static_metadata_hash_probe st \<noteq> - 1"
  shows "grpc_slice_hash E st (materialize p r) = Inr (interned_slice_refcount.hash r) \<and>
         grpc_slice_intern E st (materialize p r) =
           Some (Inr (st\<lparr>heap := (heap st)(p \<mapsto> r\<lparr>refcnt := refcnt r + 1\<rparr>),
                          trace := trace st @
                            [Mu_lock (SHARD_IDX (interned_slice_refcount.hash r)),
                             Mu_unlock (SHARD_IDX (interned_slice_refcount.hash r))]\<rparr>,
                      materialize p r))"
proof -
  let ?hs = "interned_slice_refcount.hash r"
  let ?sl = "materialize p r"
  have c: "content ?sl = payload r" "content ?sl = take (slen r) (payload r)"
    using assms(6) by (simp_all add: materialize_def)
  have h: "grpc_slice_hash E st ?sl = Inr ?hs"
    using assms(4,6)
    by (simp add: grpc_slice_hash_def interned_slice_hash_def materialize_def)
  from static_probe_total [OF assms(9), of E ?hs ?sl 0] obtain y where
    y: "static_probe E st ?hs ?sl 0 = Some y"
    by auto
  have "y = None"
  proof (cases y)
    case (Some t)
    from static_probe_hit [OF y [unfolded Some]] assms(8) c(1) show ?thesis
      by auto
  qed simp
  then have sp: "static_probe E st ?hs ?sl 0 = Some None"
    using y by simp
  have lk: "grpc_slice_intern_locked E (heap st) (g_shards st (SHARD_IDX ?hs)) ?hs ?sl =
          Some (Inr (add_ref (heap st) p, g_shards st (SHARD_IDX ?hs), ?sl))"
    using assms(1,2,3,4,5) c(2) by (rule locked_lookup)
  have "grpc_slice_intern E st ?sl =
          Some (Inr (locked_state st (SHARD_IDX ?hs) (add_ref (heap st) p)
                       (g_shards st (SHARD_IDX ?hs)), ?sl))"
    using assms(7) h sp lk by (rule intern_dynamic)
  moreover have "locked_state st (SHARD_IDX ?hs) (add_ref (heap st) p) (g_shards st (SHARD_IDX ?hs)) =
      st\<lparr>heap := (heap st)(p \<mapsto> r\<lparr>refcnt := refcnt r + 1\<rparr>),
         trace := trace st @ [Mu_lock (SHARD_IDX ?hs), Mu_unlock (SHARD_IDX ?hs)]\<rparr>"
    using assms(4) by (simp add: locked_state_def add_ref_def)
  ultimately show ?thesis
    using h by simp
qed

theorem reintern_idempotent_witness:
  "chains_ok (heap ex_state) (g_shards ex_state 0) ex_chains \<and> unique_live (heap ex_state) ex_chains \<and>
   2 \<in> set (concat ex_chains) \<and> heap ex_state 2 = Some (ex_block 256 2 None [2]) \<and>
   \<not> grpc_is_static_metadata_string ex_extern (materialize 2 (ex_block 256 2 None [2])) \<and>
   grpc_slice_hash ex_extern ex_state (materialize 2 (ex_block 256 2 None [2])) = Inr 256 \<and>
   grpc_slice_intern ex_extern ex_state (materialize 2 (ex_block 256 2 None [2])) =
     Some (Inr (ex_state\<lparr>heap := (heap ex_state)(2 \<mapsto> ex_block 256 3 None [2]),
                         trace := [Mu_lock 0, Mu_unlock 0]\<rparr>,
                materialize 2 (ex_block 256 2 None [2])))"
proof -
  have k: "SHARD_IDX (interned_slice_refcount.hash (ex_block 256 2 None [2])) = 0"
    by (simp add: ex_block_def SHARD_IDX_def LOG2_SHARD_COUNT_def)
  have 1: "chains_ok (heap ex_state)
      (g_shards ex_state (SHARD_IDX (interned_slice_refcount.hash (ex_block 256 2 None [2])))) ex_chains"
    unfolding k ex_state_shard0 ex_state_heap by (rule ex_chains_ok)
  have 2: "unique_live (heap ex_state) ex_chains"
    unfolding ex_state_heap by (rule ex_unique_live)
  have 3: "2 \<in> set (concat ex_chains)" and 4: "heap ex_state 2 = Some (ex_block 256 2 None [2])"
    and 5: "refcnt (ex_block 256 2 None [2]) \<noteq> 0"
    and 6: "slen (ex_block 256 2 None [2]) = length (payload (ex_block 256 2 None [2]))"
    and 7: "\<not> grpc_is_static_metadata_string ex_extern (materialize 2 (ex_block 256 2 None [2]))"
    and 8: "\<forall>t\<in>set (grpc_static_slice_table ex_extern). content t \<noteq> payload (ex_block 256 2 None [2])"
    and 9: "max_static_metadata_hash_probe ex_state \<noteq> - 1"
    by (simp_all add: ex_chains_def ex_state_def ex_heap_def ex_block_def ex_extern_def
          materialize_def ex_static_def)
  have e: "ex_block 256 2 None [2]\<lparr>refcnt := refcnt (ex_block 256 2 None [2]) + 1\<rparr> =
      ex_block 256 3 None [2]"
    and t: "trace ex_state = []" and h: "interned_slice_refcount.hash (ex_block 256 2 None [2]) = 256"
    by (simp_all add: ex_block_def ex_state_def)
  have k256: "SHARD_IDX 256 = 0"
    by (simp add: SHARD_IDX_def LOG2_SHARD_COUNT_def)
  have 3: "2 \<in> set (concat ex_chains)"
    by (simp add: ex_chains_def)
  from reintern_idempotent [OF 1 2 3 4 5 6 7 8 9]
  have "grpc_slice_hash ex_extern ex_state (materialize 2 (ex_block 256 2 None [2])) = Inr 256 \<and>
   grpc_slice_intern ex_extern ex_state (materialize 2 (ex_block 256 2 None [2])) =
     Some (Inr (ex_state\<lparr>heap := (heap ex_state)(2 \<mapsto> ex_block 256 3 None [2]),
                         trace := [Mu_lock 0, Mu_unlock 0]\<rparr>,
                materialize 2 (ex_block 256 2 None [2])))"
    unfolding e t h k256 by simp
  moreover have "chains_ok (heap ex_state) (g_shards ex_state 0) ex_chains"
    using 1 unfolding h k256 .
  ultimately show ?thesis
    using 2 3 4 7 by (intro conjI) simp_all
qed

text \<open>
  C9, as stated, at a concrete input. With the flag \<open>grpc_iomgr_abort_on_leaks\<close> set and
  two blocks left in shard 0, the process aborts in the first round of the loop: the lock
  of shard 1 is never destroyed.
\<close>

theorem shutdown_abort_counterexample:
  "grpc_slice_intern_shutdown ex_extern_abort ex_state =
     Some (Inl (Aborted, ex_state\<lparr>trace :=
       [Mu_destroy 0, Log_warning 2,
        Log_leaked \<lparr>refcount = Interned 1, bytes = Payload 1, content = []\<rparr>,
        Log_leaked \<lparr>refcount = Interned 2, bytes = Payload 2, content = [2]\<rparr>]\<rparr>)) \<and>
   Mu_destroy 1 \<notin> set
       [Mu_destroy 0, Log_warning 2,
        Log_leaked \<lparr>refcount = Interned 1, bytes = Payload 1, content = []\<rparr>,
        Log_leaked \<lparr>refcount = Interned 2, bytes = Payload 2, content = [2]\<rparr>]"
proof -
  have f: "grpc_iomgr_abort_on_leaks ex_extern_abort"
    by (simp add: ex_extern_abort_def)
  have t: "trace ex_state = []"
    by (simp add: ex_state_def)
  have "\<forall>i\<in>set [0..<SHARD_COUNT]. chains_ok (heap ex_state) (g_shards ex_state i) (ex_css i)"
    by (simp add: ex_css_ok)
  from shutdown_shards_ok [where E = ex_extern_abort and css = ex_css, OF this]
  show ?thesis
    unfolding grpc_slice_intern_shutdown_def
    by (simp add: upt_0_SHARD_COUNT leaks_def visited_def ex_count_0 f ex_report_0 t)
qed

text \<open>
  C9, amended. Let every shard satisfy the chain invariant, with the chains \<open>css i\<close>.
  Then \<open>grpc_slice_intern_shutdown\<close> returns or aborts; it aborts exactly when the flag
  \<open>grpc_iomgr_abort_on_leaks\<close> is set and some shard has a nonzero count, and then during
  the round of the first such shard. It changes nothing but the trace (no block is freed),
  and the trace grows by the reports of the shards reached, in order: the destruction of
  the lock, and for a shard with a nonzero count the warning and one \<open>LEAKED\<close> record for
  every block of its chains, as many as its count; a shard with count zero has no
  diagnostics.
\<close>

theorem shutdown_report:
  assumes "\<forall>i<SHARD_COUNT. chains_ok (heap st) (g_shards st i) (css i)"
  shows "grpc_slice_intern_shutdown E st =
     Some ((if grpc_iomgr_abort_on_leaks E \<and> leaks (g_shards st) [0..<SHARD_COUNT]
            then (\<lambda>s. Inl (Aborted, s)) else Inr)
       (st\<lparr>trace := trace st @
              concat (map (shard_report E (heap st) (g_shards st) css)
                (visited E (g_shards st) [0..<SHARD_COUNT]))\<rparr>)) \<and>
     (\<forall>i<SHARD_COUNT.
        length (leak_records (heap st) (concat (css i))) = count (g_shards st i))"
proof -
  have "\<forall>i\<in>set [0..<SHARD_COUNT]. chains_ok (heap st) (g_shards st i) (css i)"
    using assms by simp
  from shutdown_shards_ok [where E = E and css = css, OF this]
  have "grpc_slice_intern_shutdown E st =
     Some ((if grpc_iomgr_abort_on_leaks E \<and> leaks (g_shards st) [0..<SHARD_COUNT]
            then (\<lambda>s. Inl (Aborted, s)) else Inr)
       (st\<lparr>trace := trace st @
              concat (map (shard_report E (heap st) (g_shards st) css)
                (visited E (g_shards st) [0..<SHARD_COUNT]))\<rparr>))"
    by (simp add: grpc_slice_intern_shutdown_def)
  moreover have "\<forall>i<SHARD_COUNT.
      length (leak_records (heap st) (concat (css i))) = count (g_shards st i)"
    using assms by (simp add: chains_ok_def leak_records_def)
  ultimately show ?thesis
    by (rule conjI)
qed

theorem shutdown_report_witness:
  "list_all (\<lambda>i. chains_ok (heap ex_state) (g_shards ex_state i) (ex_css i)) [0..<SHARD_COUNT] \<and>
   grpc_slice_intern_shutdown ex_extern ex_state =
     Some (Inr (ex_state\<lparr>trace :=
       [Mu_destroy 0, Log_warning 2,
        Log_leaked \<lparr>refcount = Interned 1, bytes = Payload 1, content = []\<rparr>,
        Log_leaked \<lparr>refcount = Interned 2, bytes = Payload 2, content = [2]\<rparr>,
        Strs_free 0] @
       concat (map (\<lambda>i. [Mu_destroy i, Strs_free i]) [1..<SHARD_COUNT])\<rparr>)) \<and>
   length (leak_records (heap ex_state) (concat (ex_css 0))) = 2"
proof -
  have a: "\<forall>i<SHARD_COUNT. chains_ok (heap ex_state) (g_shards ex_state i) (ex_css i)"
    by (simp add: ex_css_ok)
  have b: "list_all (\<lambda>i. chains_ok (heap ex_state) (g_shards ex_state i) (ex_css i))
             [0..<SHARD_COUNT]"
    by (simp add: list_all_iff ex_css_ok)
  have f: "\<not> grpc_iomgr_abort_on_leaks ex_extern"
    by (simp add: ex_extern_def)
  have t: "trace ex_state = []"
    by (simp add: ex_state_def)
  have m: "map (shard_report ex_extern (heap ex_state) (g_shards ex_state) ex_css)
             [Suc 0..<SHARD_COUNT] =
           map (\<lambda>i. [Mu_destroy i, Strs_free i]) [Suc 0..<SHARD_COUNT]"
    by (rule map_cong) (simp_all add: ex_report_Suc)
  have k: "(0 :: nat) < SHARD_COUNT"
    by (simp add: SHARD_COUNT_def)
  from shutdown_report [OF a, of ex_extern]
  have "grpc_slice_intern_shutdown ex_extern ex_state =
     Some (Inr (ex_state\<lparr>trace :=
       [Mu_destroy 0, Log_warning 2,
        Log_leaked \<lparr>refcount = Interned 1, bytes = Payload 1, content = []\<rparr>,
        Log_leaked \<lparr>refcount = Interned 2, bytes = Payload 2, content = [2]\<rparr>,
        Strs_free 0] @
       concat (map (\<lambda>i. [Mu_destroy i, Strs_free i]) [1..<SHARD_COUNT])\<rparr>)) \<and>
   length (leak_records (heap ex_state) (concat (ex_css 0))) = 2"
    using k by (simp add: f visited_def t upt_0_SHARD_COUNT ex_report_0 m ex_count_0)
  with b show ?thesis
    by (rule conjI)
qed

text \<open>
  C8, as stated, at a concrete input. The slice of the first three bytes of the only block
  of shard 0 has the content of the static string. \<open>grpc_slice_static_intern\<close> finds the
  static entry and drops the reference of the input slice; it was the last reference to
  the block, so the shard lock is taken, the block is unlinked from bucket 0 and freed, and
  the count of the shard goes from 1 to 0.
\<close>

theorem static_intern_unref_counterexample:
  "grpc_slice_static_intern ex_extern ex_state_sub ex_sub =
     Some (Inr (ex_state_sub
       \<lparr>g_shards := (g_shards ex_state_sub)
          (0 := \<lparr>strs = [None, None, None, None, None, None, None, None], count = 0,
                 capacity = 8\<rparr>),
        heap := Map.empty, trace := [Mu_lock 0, Mu_unlock 0]\<rparr>, ex_static)) \<and>
   g_shards ex_state_sub 0 =
     \<lparr>strs = [Some 1, None, None, None, None, None, None, None], count = 1, capacity = 8\<rparr>"
proof -
  have "\<not> grpc_is_static_metadata_string ex_extern ex_sub"
    by (simp add: ex_extern_def ex_sub_def)
  moreover have "grpc_slice_unref ex_state_sub ex_sub =
     Some (Inr (locked_state ex_state_sub 0 Map.empty
       \<lparr>strs = [None, None, None, None, None, None, None, None], count = 0, capacity = 8\<rparr>))"
    using ex_sub_unref by (simp add: grpc_slice_unref_def ex_sub_def)
  moreover have "trace ex_state_sub = []"
    by (simp add: ex_state_sub_def ex_state_def)
  ultimately have "grpc_slice_static_intern ex_extern ex_state_sub ex_sub =
     Some (Inr (ex_state_sub
       \<lparr>g_shards := (g_shards ex_state_sub)
          (0 := \<lparr>strs = [None, None, None, None, None, None, None, None], count = 0,
                 capacity = 8\<rparr>),
        heap := Map.empty, trace := [Mu_lock 0, Mu_unlock 0]\<rparr>, ex_static))"
    by (simp add: grpc_slice_static_intern_def ex_sub_hash ex_sub_probe locked_state_def)
  moreover have "g_shards ex_state_sub 0 =
     \<lparr>strs = [Some 1, None, None, None, None, None, None, None], count = 1, capacity = 8\<rparr>"
    by (simp add: ex_state_sub_def)
  ultimately show ?thesis
    by (rule conjI)
qed

text \<open>
  C5 at a concrete input. In the environment with the seeded hashes 2, 3 and \<open>2 ^ 32 - 2\<close>
  the table has 12 slots. \<open>grpc_slice_intern_init\<close> puts the third string at offset 2 from
  its hash, in slot \<open>(2 ^ 32 - 2 + 2) mod 12 = 4\<close> (the sum is a \<open>size_t\<close>), and records the
  bound 2. The lookup loop adds the offset in \<open>uint32_t\<close>: at offset 2 the sum is 0, it
  reads slot 0, and the loop ends at the bound without finding the third string.
\<close>

theorem probe_bound_wrap:
  "static_metadata_hash_values ex_wrap 2 = 0xFFFFFFFE \<and>
   max_static_metadata_hash_probe ex_wrap = 2 \<and>
   (unat (0xFFFFFFFE :: u32) + 2) mod static_metadata_hash_size ex_extern_wrap = 4 \<and>
   static_metadata_hash ex_wrap 4 = \<lparr>static_metadata_hash_ent.hash = 0xFFFFFFFE, idx = 2\<rparr> \<and>
   unat ((0xFFFFFFFE :: u32) + 2) mod static_metadata_hash_size ex_extern_wrap = 0 \<and>
   static_probe ex_extern_wrap ex_wrap 0xFFFFFFFE (grpc_static_slice_table ex_extern_wrap ! 2) 0 =
     Some None"
proof -
  have "content (grpc_static_slice_table ex_extern_wrap ! 2) = [3]"
    by (simp add: ex_extern_wrap_def)
  then have "static_probe ex_extern_wrap ex_wrap 0xFFFFFFFE
               (grpc_static_slice_table ex_extern_wrap ! 2) 0 = Some None"
    by (rule ex_wrap_miss)
  then show ?thesis
    by (simp add: ex_wrap_values ex_wrap_table ex_wrap_sizes)
qed

text \<open>
  C3 at a concrete input, in the same environment. A slice with the content of the third
  static string and a refcount of its own is not found by the probe; \<open>grpc_slice_intern\<close>
  goes on to the dynamic table, takes the lock of shard 30, allocates a block and returns
  it.
\<close>

theorem intern_static_content_allocates:
  "content (grpc_static_slice_table ex_extern_wrap ! 2) = content (ex_slice 0 [3]) \<and>
   grpc_slice_intern ex_extern_wrap ex_wrap (ex_slice 0 [3]) =
     Some (Inr (ex_wrap
       \<lparr>g_shards := (g_shards ex_wrap)
          (30 := \<lparr>strs = [None, None, None, None, None, None, None, Some 3], count = 1,
                  capacity = 8\<rparr>),
        heap := [3 \<mapsto> new_block 0xFFFFFFFE (ex_slice 0 [3]) None],
        trace := trace ex_wrap @ [Mu_lock 30, Mu_unlock 30]\<rparr>,
       \<lparr>refcount = Interned 3, bytes = Payload 3, content = [3]\<rparr>))"
proof -
  have c: "content (grpc_static_slice_table ex_extern_wrap ! 2) = content (ex_slice 0 [3])"
    by (simp add: ex_extern_wrap_def ex_slice_def)
  have "grpc_slice_intern ex_extern_wrap ex_wrap (ex_slice 0 [3]) =
        Some (Inr (locked_state ex_wrap (SHARD_IDX 0xFFFFFFFE)
          [3 \<mapsto> new_block 0xFFFFFFFE (ex_slice 0 [3]) None]
          \<lparr>strs = [None, None, None, None, None, None, None, Some 3], count = 1, capacity = 8\<rparr>,
          \<lparr>refcount = Interned 3, bytes = Payload 3, content = [3]\<rparr>))"
  proof (rule intern_dynamic)
    show "\<not> grpc_is_static_metadata_string ex_extern_wrap (ex_slice 0 [3])"
      by (simp add: ex_extern_wrap_def ex_extern_def ex_slice_def)
    show "grpc_slice_hash ex_extern_wrap ex_wrap (ex_slice 0 [3]) = Inr 0xFFFFFFFE"
      by (simp add: grpc_slice_hash_def grpc_slice_default_hash_impl_def ex_slice_def
            ex_extern_wrap_def)
    show "static_probe ex_extern_wrap ex_wrap 0xFFFFFFFE (ex_slice 0 [3]) 0 = Some None"
      by (rule ex_wrap_miss) (simp add: ex_slice_def)
    show "grpc_slice_intern_locked ex_extern_wrap (heap ex_wrap)
            (g_shards ex_wrap (SHARD_IDX 0xFFFFFFFE)) 0xFFFFFFFE (ex_slice 0 [3]) =
          Some (Inr ([3 \<mapsto> new_block 0xFFFFFFFE (ex_slice 0 [3]) None],
            \<lparr>strs = [None, None, None, None, None, None, None, Some 3], count = 1,
             capacity = 8\<rparr>,
            \<lparr>refcount = Interned 3, bytes = Payload 3, content = [3]\<rparr>))"
      unfolding ex_idx_wrap ex_wrap_shard ex_wrap_heap by (rule ex_wrap_locked)
  qed
  then have "grpc_slice_intern ex_extern_wrap ex_wrap (ex_slice 0 [3]) =
     Some (Inr (ex_wrap
       \<lparr>g_shards := (g_shards ex_wrap)
          (30 := \<lparr>strs = [None, None, None, None, None, None, None, Some 3], count = 1,
                  capacity = 8\<rparr>),
        heap := [3 \<mapsto> new_block 0xFFFFFFFE (ex_slice 0 [3]) None],
        trace := trace ex_wrap @ [Mu_lock 30, Mu_unlock 30]\<rparr>,
       \<lparr>refcount = Interned 3, bytes = Payload 3, content = [3]\<rparr>))"
    by (simp add: ex_idx_wrap locked_state_def)
  with c show ?thesis
    by (rule conjI)
qed

text \<open>
  C1. In a state where the shard of the content's hash satisfies the chain invariant and
  holds no negative reference counter, take two well-formed slices \<open>a\<close> and \<open>b\<close> with the
  same content, which is the content of no static metadata string. Then
  \<open>grpc_slice_intern\<close> of one followed by \<open>grpc_slice_intern\<close> of the other both return,
  and both return the slice \<open>r\<close> of one interned block \<open>p\<close>: its refcount pointer is the
  block, its bytes pointer is the payload of the block, and its bytes are those of \<open>a\<close>.
  After the two calls block \<open>p\<close> is allocated, holds the bytes of \<open>a\<close> and their hash, is
  linked in the bucket of that hash, and has two references more than before (two when it
  is new). The block \<open>p\<close> and the slice \<open>r\<close> are the same for the two orders of the calls.
\<close>

theorem intern_canonical:
  assumes "chains_ok (heap st) (g_shards st (SHARD_IDX hs)) cs"
    and "hs = gpr_murmur_hash3 E (content a) (g_hash_seed st)"
    and "counted (heap st) cs"
    and "slice_ok E st a" and "slice_ok E st b"
    and "content a = content b"
    and "\<not> grpc_is_static_metadata_string E a"
    and "\<not> grpc_is_static_metadata_string E b"
    and "\<forall>t\<in>set (grpc_static_slice_table E). content t \<noteq> content a"
    and "max_static_metadata_hash_probe st \<noteq> - 1"
    and "heap st (gpr_malloc E (heap st)) = None"
  shows "\<exists>p r. r = \<lparr>refcount = Interned p, bytes = Payload p, content = content a\<rparr> \<and>
           (\<exists>st1 st2 cs2.
              grpc_slice_intern E st a = Some (Inr (st1, r)) \<and>
              grpc_slice_intern E st1 b = Some (Inr (st2, r)) \<and>
              interned_record st2 cs2 p hs (content a)
                (2 + (case heap st p of None \<Rightarrow> 0 | Some blk \<Rightarrow> refcnt blk))) \<and>
           (\<exists>st1 st2 cs2.
              grpc_slice_intern E st b = Some (Inr (st1, r)) \<and>
              grpc_slice_intern E st1 a = Some (Inr (st2, r)) \<and>
              interned_record st2 cs2 p hs (content a)
                (2 + (case heap st p of None \<Rightarrow> 0 | Some blk \<Rightarrow> refcnt blk)))"
proof -
  let ?p = "canonical_block E st cs hs a"
  let ?r = "\<lparr>refcount = Interned ?p, bytes = Payload ?p, content = content a\<rparr>"
  have miss: "static_probe E st hs a 0 = Some None"
    using assms(10,9) by (rule static_probe_none)
  have missb: "static_probe E st hs b 0 = Some None"
    using assms(10) assms(9) [unfolded assms(6)] by (rule static_probe_none)
  have 1: "\<exists>st1 st2 cs2.
              grpc_slice_intern E st a = Some (Inr (st1, ?r)) \<and>
              grpc_slice_intern E st1 b = Some (Inr (st2, ?r)) \<and>
              interned_record st2 cs2 ?p hs (content a)
                (2 + (case heap st ?p of None \<Rightarrow> 0 | Some blk \<Rightarrow> refcnt blk))"
    using assms(1-8) miss assms(11) refl refl by (rule intern_twice_record)
  have pb: "canonical_block E st cs hs b = ?p"
    using assms(6) [symmetric] by (rule canonical_block_content)
  have "\<exists>st1 st2 cs2.
              grpc_slice_intern E st b = Some (Inr (st1, ?r)) \<and>
              grpc_slice_intern E st1 a = Some (Inr (st2, ?r)) \<and>
              interned_record st2 cs2 ?p hs (content b)
                (2 + (case heap st ?p of None \<Rightarrow> 0 | Some blk \<Rightarrow> refcnt blk))"
  proof (rule intern_twice_record)
    show "chains_ok (heap st) (g_shards st (SHARD_IDX hs)) cs"
      by (rule assms(1))
    show "hs = gpr_murmur_hash3 E (content b) (g_hash_seed st)"
      using assms(2,6) by simp
    show "counted (heap st) cs" "slice_ok E st b" "slice_ok E st a"
      "\<not> grpc_is_static_metadata_string E b" "\<not> grpc_is_static_metadata_string E a"
      "heap st (gpr_malloc E (heap st)) = None"
      by (rule assms)+
    show "content b = content a"
      using assms(6) by simp
    show "static_probe E st hs b 0 = Some None"
      by (rule missb)
    show "?p = canonical_block E st cs hs b"
      using pb by simp
    show "?r = \<lparr>refcount = Interned ?p, bytes = Payload ?p, content = content b\<rparr>"
      using assms(6) by simp
  qed
  then have 2: "\<exists>st1 st2 cs2.
              grpc_slice_intern E st b = Some (Inr (st1, ?r)) \<and>
              grpc_slice_intern E st1 a = Some (Inr (st2, ?r)) \<and>
              interned_record st2 cs2 ?p hs (content a)
                (2 + (case heap st ?p of None \<Rightarrow> 0 | Some blk \<Rightarrow> refcnt blk))"
    unfolding assms(6) .
  from 1 2 show ?thesis
    by (intro exI [of _ ?p] exI [of _ ?r] conjI refl)
qed

theorem intern_canonical_witness:
  "chains_ok (heap ex_state) (g_shards ex_state (SHARD_IDX 512)) ex_chains \<and>
   512 = gpr_murmur_hash3 ex_extern (content (ex_slice 1 [5, 5])) (g_hash_seed ex_state) \<and>
   counted (heap ex_state) ex_chains \<and>
   slice_ok ex_extern ex_state (ex_slice 1 [5, 5]) \<and> slice_ok ex_extern ex_state (ex_slice 2 [5, 5]) \<and>
   content (ex_slice 1 [5, 5]) = content (ex_slice 2 [5, 5]) \<and>
   \<not> grpc_is_static_metadata_string ex_extern (ex_slice 1 [5, 5]) \<and>
   \<not> grpc_is_static_metadata_string ex_extern (ex_slice 2 [5, 5]) \<and>
   list_all (\<lambda>t. content t \<noteq> content (ex_slice 1 [5, 5])) (grpc_static_slice_table ex_extern) \<and>
   max_static_metadata_hash_probe ex_state \<noteq> - 1 \<and>
   heap ex_state (gpr_malloc ex_extern (heap ex_state)) = None \<and>
   (\<exists>st1 st2 cs2.
      grpc_slice_intern ex_extern ex_state (ex_slice 1 [5, 5]) =
        Some (Inr (st1, \<lparr>refcount = Interned 3, bytes = Payload 3, content = [5, 5]\<rparr>)) \<and>
      grpc_slice_intern ex_extern st1 (ex_slice 2 [5, 5]) =
        Some (Inr (st2, \<lparr>refcount = Interned 3, bytes = Payload 3, content = [5, 5]\<rparr>)) \<and>
      interned_record st2 cs2 3 512 [5, 5] 2) \<and>
   (\<exists>st1 st2 cs2.
      grpc_slice_intern ex_extern ex_state (ex_slice 2 [5, 5]) =
        Some (Inr (st1, \<lparr>refcount = Interned 3, bytes = Payload 3, content = [5, 5]\<rparr>)) \<and>
      grpc_slice_intern ex_extern st1 (ex_slice 1 [5, 5]) =
        Some (Inr (st2, \<lparr>refcount = Interned 3, bytes = Payload 3, content = [5, 5]\<rparr>)) \<and>
      interned_record st2 cs2 3 512 [5, 5] 2)"
proof -
  have k: "SHARD_IDX 512 = 0"
    by (simp add: SHARD_IDX_def LOG2_SHARD_COUNT_def)
  have 1: "chains_ok (heap ex_state) (g_shards ex_state (SHARD_IDX 512)) ex_chains"
    unfolding k ex_state_shard0 ex_state_heap by (rule ex_chains_ok)
  have 2: "512 = gpr_murmur_hash3 ex_extern (content (ex_slice 1 [5, 5])) (g_hash_seed ex_state)"
    by (simp add: ex_extern_def ex_slice_def)
  have 3: "counted (heap ex_state) ex_chains"
    unfolding ex_state_heap by (rule ex_counted)
  have 4: "slice_ok ex_extern ex_state (ex_slice 1 [5, 5])"
    and 5: "slice_ok ex_extern ex_state (ex_slice 2 [5, 5])"
    and 6: "content (ex_slice 1 [5, 5]) = content (ex_slice 2 [5, 5])"
    and 7: "\<not> grpc_is_static_metadata_string ex_extern (ex_slice 1 [5, 5])"
    and 8: "\<not> grpc_is_static_metadata_string ex_extern (ex_slice 2 [5, 5])"
    by (simp_all add: slice_ok_def ex_slice_def ex_extern_def)
  have 9: "\<forall>t\<in>set (grpc_static_slice_table ex_extern).
             content t \<noteq> content (ex_slice 1 [5, 5])"
    by (simp add: ex_extern_def ex_static_def ex_slice_def)
  then have l9: "list_all (\<lambda>t. content t \<noteq> content (ex_slice 1 [5, 5]))
                   (grpc_static_slice_table ex_extern)"
    by (simp add: list_all_iff)
  have 10: "max_static_metadata_hash_probe ex_state \<noteq> - 1"
    and 11: "heap ex_state (gpr_malloc ex_extern (heap ex_state)) = None"
    by (simp_all add: ex_state_def ex_extern_def ex_heap_def)
  have p: "canonical_block ex_extern ex_state ex_chains 512 (ex_slice 1 [5, 5]) = 3"
    unfolding canonical_block_def k ex_state_shard0 ex_state_heap
    by (simp add: ex_shard_def ex_chains_def TABLE_IDX_def LOG2_SHARD_COUNT_def matches_def
          ex_heap_def ex_block_def ex_extern_def)
  have h3: "heap ex_state 3 = None"
    by (simp add: ex_state_def ex_heap_def)
  from intern_canonical [OF 1 2 3 4 5 6 7 8 9 10 11] obtain p r where
    r: "r = \<lparr>refcount = Interned p, bytes = Payload p, content = content (ex_slice 1 [5, 5])\<rparr>"
    and a: "\<exists>st1 st2 cs2.
              grpc_slice_intern ex_extern ex_state (ex_slice 1 [5, 5]) = Some (Inr (st1, r)) \<and>
              grpc_slice_intern ex_extern st1 (ex_slice 2 [5, 5]) = Some (Inr (st2, r)) \<and>
              interned_record st2 cs2 p 512 (content (ex_slice 1 [5, 5]))
                (2 + (case heap ex_state p of None \<Rightarrow> 0 | Some blk \<Rightarrow> refcnt blk))"
    and b: "\<exists>st1 st2 cs2.
              grpc_slice_intern ex_extern ex_state (ex_slice 2 [5, 5]) = Some (Inr (st1, r)) \<and>
              grpc_slice_intern ex_extern st1 (ex_slice 1 [5, 5]) = Some (Inr (st2, r)) \<and>
              interned_record st2 cs2 p 512 (content (ex_slice 1 [5, 5]))
                (2 + (case heap ex_state p of None \<Rightarrow> 0 | Some blk \<Rightarrow> refcnt blk))"
    by blast
  have miss: "static_probe ex_extern ex_state 512 (ex_slice 1 [5, 5]) 0 = Some None"
    using 10 9 by (rule static_probe_none)
  from intern_twice_record [OF 1 2 3 4 5 6 7 8 miss 11 refl refl] a
  have "p = 3"
    unfolding p r by auto
  with r a b h3 have
    a': "\<exists>st1 st2 cs2.
      grpc_slice_intern ex_extern ex_state (ex_slice 1 [5, 5]) =
        Some (Inr (st1, \<lparr>refcount = Interned 3, bytes = Payload 3, content = [5, 5]\<rparr>)) \<and>
      grpc_slice_intern ex_extern st1 (ex_slice 2 [5, 5]) =
        Some (Inr (st2, \<lparr>refcount = Interned 3, bytes = Payload 3, content = [5, 5]\<rparr>)) \<and>
      interned_record st2 cs2 3 512 [5, 5] 2"
    and b': "\<exists>st1 st2 cs2.
      grpc_slice_intern ex_extern ex_state (ex_slice 2 [5, 5]) =
        Some (Inr (st1, \<lparr>refcount = Interned 3, bytes = Payload 3, content = [5, 5]\<rparr>)) \<and>
      grpc_slice_intern ex_extern st1 (ex_slice 1 [5, 5]) =
        Some (Inr (st2, \<lparr>refcount = Interned 3, bytes = Payload 3, content = [5, 5]\<rparr>)) \<and>
      interned_record st2 cs2 3 512 [5, 5] 2"
    by (simp_all add: ex_slice_def)
  from 1 2 3 4 5 6 7 8 l9 10 11 a' b' show ?thesis
    by (intro conjI)
qed

text \<open>
  C7. Growth trigger and shape. Take a state \<open>st\<close> reached from the state after
  \<open>grpc_slice_intern_init\<close> by any sequence \<open>xs\<close> of intern, static-intern, ref and unref
  operations and a shard \<open>k\<close>. The capacity of the shard in \<open>st\<close> is the initial capacity 8
  times a power of two. After any further sequence \<open>ys\<close> of operations the capacity is not
  smaller. One operation \<open>x\<close> changes the capacity exactly when it has inserted a block
  (the count is one more than before) and the count after the insertion exceeds 2 times
  the capacity before; the new capacity is then 2 times the old one, and it is the old
  one otherwise. And the insertion does take place: when the shard of a hash satisfies the
  chain invariant and holds no live block with the content of a well-formed slice \<open>sl\<close>,
  which the static probe does not find, \<open>grpc_slice_intern\<close> of \<open>sl\<close> returns, the count of
  the shard is one more, and its capacity is 2 times the old one if the new count exceeds
  2 times the old capacity, and the old one otherwise.
\<close>

theorem capacity_growth:
  assumes "run E (grpc_slice_intern_init E now st0) xs = Some (Inr st)"
    and "run E st ys = Some (Inr st'')"
    and "op_step E st x = Some (Inr st')"
    and "k < SHARD_COUNT"
    and "\<not> grpc_is_static_metadata_string E sl"
    and "slice_ok E st sl"
    and "hs = gpr_murmur_hash3 E (content sl) (g_hash_seed st)"
    and "static_probe E st hs sl 0 = Some None"
    and "chains_ok (heap st) (g_shards st (SHARD_IDX hs)) cs"
    and "List.find (\<lambda>q. matches (heap st) hs sl q \<and> live (heap st) q)
           (cs ! TABLE_IDX hs (capacity (g_shards st (SHARD_IDX hs)))) = None"
    and "heap st (gpr_malloc E (heap st)) = None"
  shows "(\<exists>n. capacity (g_shards st k) = INITIAL_SHARD_CAPACITY * 2 ^ n) \<and>
         capacity (g_shards st k) \<le> capacity (g_shards st'' k) \<and>
         ((capacity (g_shards st' k) \<noteq> capacity (g_shards st k)) =
            (count (g_shards st' k) = count (g_shards st k) + 1 \<and>
             2 * capacity (g_shards st k) < count (g_shards st' k))) \<and>
         capacity (g_shards st' k) =
           (if count (g_shards st' k) = count (g_shards st k) + 1 \<and>
               2 * capacity (g_shards st k) < count (g_shards st' k)
            then 2 * capacity (g_shards st k) else capacity (g_shards st k)) \<and>
         (\<exists>st1 res.
            grpc_slice_intern E st sl = Some (Inr (st1, res)) \<and>
            count (g_shards st1 (SHARD_IDX hs)) = count (g_shards st (SHARD_IDX hs)) + 1 \<and>
            capacity (g_shards st1 (SHARD_IDX hs)) =
              (if 2 * capacity (g_shards st (SHARD_IDX hs)) < count (g_shards st (SHARD_IDX hs)) + 1
               then 2 * capacity (g_shards st (SHARD_IDX hs))
               else capacity (g_shards st (SHARD_IDX hs))))"
proof -
  have "capacity (g_shards (grpc_slice_intern_init E now st0) k) = INITIAL_SHARD_CAPACITY * 2 ^ 0"
    using assms(4) by (simp add: init_shards)
  from run_power [OF assms(1) this]
  have p: "\<exists>n. capacity (g_shards st k) = INITIAL_SHARD_CAPACITY * 2 ^ n" .
  have m: "capacity (g_shards st k) \<le> capacity (g_shards st'' k)"
    using assms(2) by (rule run_mono)
  have s: "shard_step (g_shards st k) (g_shards st' k)"
    using assms(3) by (rule op_step_shape)
  have g: "(capacity (g_shards st' k) \<noteq> capacity (g_shards st k)) =
            (count (g_shards st' k) = count (g_shards st k) + 1 \<and>
             2 * capacity (g_shards st k) < count (g_shards st' k))"
    using s by (rule shard_step_grows(1))
  have d: "capacity (g_shards st' k) =
           (if count (g_shards st' k) = count (g_shards st k) + 1 \<and>
               2 * capacity (g_shards st k) < count (g_shards st' k)
            then 2 * capacity (g_shards st k) else capacity (g_shards st k))"
    using shard_step_grows(2) [OF s] g by auto
  have ha: "grpc_slice_hash E st sl = Inr hs"
    using hash_ok [OF assms(6,5)] assms(7) by simp
  from locked_miss [OF assms(9,10,11)] obtain h' shard' where
    lk: "grpc_slice_intern_locked E (heap st) (g_shards st (SHARD_IDX hs)) hs sl =
           Some (Inr (h', shard',
             \<lparr>refcount = Interned (gpr_malloc E (heap st)), bytes = Payload (gpr_malloc E (heap st)),
              content = content sl\<rparr>))"
    and c': "count shard' = count (g_shards st (SHARD_IDX hs)) + 1"
    and p': "capacity shard' =
              (if count (g_shards st (SHARD_IDX hs)) + 1 > capacity (g_shards st (SHARD_IDX hs)) * 2
               then capacity (g_shards st (SHARD_IDX hs)) * 2
               else capacity (g_shards st (SHARD_IDX hs)))"
    by (elim exE conjE)
  let ?st1 = "locked_state st (SHARD_IDX hs) h' shard'"
  have i: "grpc_slice_intern E st sl =
             Some (Inr (?st1, \<lparr>refcount = Interned (gpr_malloc E (heap st)),
               bytes = Payload (gpr_malloc E (heap st)), content = content sl\<rparr>))"
    using assms(5) ha assms(8) lk by (rule intern_dynamic)
  have t: "\<exists>st1 res.
            grpc_slice_intern E st sl = Some (Inr (st1, res)) \<and>
            count (g_shards st1 (SHARD_IDX hs)) = count (g_shards st (SHARD_IDX hs)) + 1 \<and>
            capacity (g_shards st1 (SHARD_IDX hs)) =
              (if 2 * capacity (g_shards st (SHARD_IDX hs)) < count (g_shards st (SHARD_IDX hs)) + 1
               then 2 * capacity (g_shards st (SHARD_IDX hs))
               else capacity (g_shards st (SHARD_IDX hs)))"
    using i c' p' by (intro exI [of _ ?st1] exI conjI) (simp_all add: locked_state_simps mult.commute)
  from p m g d t show ?thesis
    by (intro conjI)
qed

theorem capacity_growth_witness:
  "\<exists>st st' cs.
     run ex_extern_many (grpc_slice_intern_init ex_extern_many 0 ex_power_on) (ex_inserts 16) =
       Some (Inr st) \<and>
     run ex_extern_many st [Intern (ex_nth_slice 16)] = Some (Inr st') \<and>
     op_step ex_extern_many st (Intern (ex_nth_slice 16)) = Some (Inr st') \<and>
     (0 :: nat) < SHARD_COUNT \<and>
     \<not> grpc_is_static_metadata_string ex_extern_many (ex_nth_slice 16) \<and>
     slice_ok ex_extern_many st (ex_nth_slice 16) \<and>
     4096 = gpr_murmur_hash3 ex_extern_many (content (ex_nth_slice 16)) (g_hash_seed st) \<and>
     static_probe ex_extern_many st 4096 (ex_nth_slice 16) 0 = Some None \<and>
     chains_ok (heap st) (g_shards st (SHARD_IDX 4096)) cs \<and>
     List.find (\<lambda>q. matches (heap st) 4096 (ex_nth_slice 16) q \<and> live (heap st) q)
       (cs ! TABLE_IDX 4096 (capacity (g_shards st (SHARD_IDX 4096)))) = None \<and>
     heap st (gpr_malloc ex_extern_many (heap st)) = None \<and>
     count (g_shards st 0) = 16 \<and> capacity (g_shards st 0) = 8 \<and>
     count (g_shards st' 0) = 17 \<and> capacity (g_shards st' 0) = 16 \<and>
     capacity (g_shards st' 0) \<noteq> capacity (g_shards st 0)"
proof -
  from ex_filled_reach [of 16] obtain st cs where
    r: "run ex_extern_many ex_many_booted (ex_inserts 16) = Some (Inr st)"
    and f: "ex_filled 16 st cs"
    by auto
  have k0: "SHARD_IDX 4096 = 0"
    using SHARD_IDX_256 [of 16] by simp
  from f have ok: "chains_ok (heap st) (g_shards st (SHARD_IDX 4096)) cs"
    and cnt: "count (g_shards st 0) = 16" and cap: "capacity (g_shards st 0) = 8"
    and mx: "max_static_metadata_hash_probe st = 0"
    by (simp_all add: ex_filled_def k0)
  from ex_filled_insert [OF f] obtain st' res where
    i: "grpc_slice_intern ex_extern_many st (ex_nth_slice 16) = Some (Inr (st', res))"
    by auto
  have 1: "run ex_extern_many (grpc_slice_intern_init ex_extern_many 0 ex_power_on) (ex_inserts 16) =
       Some (Inr st)"
    using r by (simp add: ex_many_booted_def)
  have 3: "op_step ex_extern_many st (Intern (ex_nth_slice 16)) = Some (Inr st')"
    by (simp add: op_step_def i)
  then have 2: "run ex_extern_many st [Intern (ex_nth_slice 16)] = Some (Inr st')"
    by simp
  have 4: "(0 :: nat) < SHARD_COUNT"
    by (simp add: SHARD_COUNT_def)
  have 5: "\<not> grpc_is_static_metadata_string ex_extern_many (ex_nth_slice 16)"
    by (rule ex_nth_slice_facts)
  have 6: "slice_ok ex_extern_many st (ex_nth_slice 16)"
    by (simp add: slice_ok_def ex_nth_slice_def ex_slice_def)
  have 7: "4096 = gpr_murmur_hash3 ex_extern_many (content (ex_nth_slice 16)) (g_hash_seed st)"
    by (simp add: ex_nth_slice_facts ex_extern_many_def ex_extern_def)
  have 8: "static_probe ex_extern_many st 4096 (ex_nth_slice 16) 0 = Some None"
    using mx by (rule ex_nth_slice_miss)
  have 10: "List.find (\<lambda>q. matches (heap st) 4096 (ex_nth_slice 16) q \<and> live (heap st) q)
       (cs ! TABLE_IDX 4096 (capacity (g_shards st (SHARD_IDX 4096)))) = None"
    using ex_filled_new(1) [OF f] by simp
  have 11: "heap st (gpr_malloc ex_extern_many (heap st)) = None"
    using ex_filled_new(2) [OF f] by simp
  from capacity_growth [OF 1 2 3 4 5 6 7 8 ok 10 11] i
  have c': "count (g_shards st' 0) = 17" and p': "capacity (g_shards st' 0) = 16"
    by (auto simp: k0 cnt cap)
  then have "capacity (g_shards st' 0) \<noteq> capacity (g_shards st 0)"
    using cap by simp
  with 1 2 3 4 5 6 7 8 ok 10 11 cnt cap c' p' show ?thesis
    by blast
qed

text \<open>
  C8, amended. Let the static table, the probe bound and the seed of the state be those
  that \<open>grpc_slice_intern_init\<close> has set, for fewer than \<open>2 ^ 30\<close> static strings; let the
  input slice be well formed, and, when it holds the last reference to an interned block,
  let that block be on a chain of its shard, which satisfies the chain invariant. Then
  \<open>grpc_slice_static_intern\<close> returns. When the slice is a static metadata string already,
  or its content is the content of no static entry, the slice and the state are unchanged.
  When its content is the content of a static entry, and its hash plus the probe bound is
  less than \<open>2 ^ 32\<close>, the slice becomes an entry of \<open>grpc_static_slice_table\<close> with that
  content and the state is the one after \<open>grpc_slice_unref\<close> of the input slice. (For a
  hash within the probe bound of \<open>2 ^ 32\<close> one of the two happens.) In all cases no block
  is allocated, no shard changes its capacity, and no count grows.
\<close>

theorem static_intern_effect:
  assumes "static_metadata_hash st = static_metadata_hash (grpc_slice_intern_init E now st0)"
    and "max_static_metadata_hash_probe st =
           max_static_metadata_hash_probe (grpc_slice_intern_init E now st0)"
    and "g_hash_seed st = g_hash_seed (grpc_slice_intern_init E now st0)"
    and "GRPC_STATIC_MDSTR_COUNT E < 2 ^ 30"
    and "slice_ok E st sl"
    and "\<forall>p r. refcount sl = Interned p \<and> heap st p = Some r \<and> refcnt r = 1 \<longrightarrow>
           chains_ok (heap st) (g_shards st (SHARD_IDX (interned_slice_refcount.hash r))) cs \<and>
           p \<in> set (concat cs) \<and>
           count (g_shards st (SHARD_IDX (interned_slice_refcount.hash r))) < 2 ^ 64"
    and "hs = gpr_murmur_hash3 E (content sl) (g_hash_seed st)"
  shows "\<exists>st' sl'.
           grpc_slice_static_intern E st sl = Some (Inr (st', sl')) \<and>
           (if grpc_is_static_metadata_string E sl \<or>
               \<not> list_ex (\<lambda>t. content t = content sl) (grpc_static_slice_table E)
            then sl' = sl \<and> st' = st
            else if unat hs + unat (max_static_metadata_hash_probe st) < 2 ^ 32
            then sl' \<in> set (grpc_static_slice_table E) \<and> content sl' = content sl \<and>
                 grpc_slice_unref st sl = Some (Inr st')
            else (sl' = sl \<and> st' = st) \<or>
                 (sl' \<in> set (grpc_static_slice_table E) \<and> content sl' = content sl \<and>
                  grpc_slice_unref st sl = Some (Inr st'))) \<and>
           dom (heap st') \<subseteq> dom (heap st) \<and>
           (\<forall>k. capacity (g_shards st' k) = capacity (g_shards st k) \<and>
                count (g_shards st' k) \<le> count (g_shards st k))"
proof -
  let ?n = "GRPC_STATIC_MDSTR_COUNT E"
  let ?seed = "g_hash_seed st"
  have "built E (g_hash_seed (grpc_slice_intern_init E now st0)) ?n
          (grpc_slice_intern_init E now st0)"
    using assms(4) by (rule built_init)
  then have "built E ?seed ?n (grpc_slice_intern_init E now st0)"
    by (simp only: assms(3))
  then have b: "built E ?seed ?n st"
    using assms(1,2,3) by (rule built_cong)
  have mx: "max_static_metadata_hash_probe st \<noteq> - 1"
    using b assms(4) by (rule built_probe_bound)
  from static_intern_cases [OF mx assms(5,6,7)] obtain st' sl' where
    r: "grpc_slice_static_intern E st sl = Some (Inr (st', sl'))"
    and c: "if \<not> grpc_is_static_metadata_string E sl \<and> static_probe E st hs sl 0 \<noteq> Some None
            then static_probe E st hs sl 0 = Some (Some sl') \<and>
                 sl' \<in> set (grpc_static_slice_table E) \<and> content sl' = content sl \<and>
                 grpc_slice_unref st sl = Some (Inr st')
            else sl' = sl \<and> st' = st"
    and d: "dom (heap st') \<subseteq> dom (heap st)"
    and k: "\<forall>k. capacity (g_shards st' k) = capacity (g_shards st k) \<and>
                count (g_shards st' k) \<le> count (g_shards st k)"
    by blast
  have "if grpc_is_static_metadata_string E sl \<or>
               \<not> list_ex (\<lambda>t. content t = content sl) (grpc_static_slice_table E)
            then sl' = sl \<and> st' = st
            else if unat hs + unat (max_static_metadata_hash_probe st) < 2 ^ 32
            then sl' \<in> set (grpc_static_slice_table E) \<and> content sl' = content sl \<and>
                 grpc_slice_unref st sl = Some (Inr st')
            else (sl' = sl \<and> st' = st) \<or>
                 (sl' \<in> set (grpc_static_slice_table E) \<and> content sl' = content sl \<and>
                  grpc_slice_unref st sl = Some (Inr st'))"
  proof (cases "grpc_is_static_metadata_string E sl")
    case True
    with c show ?thesis
      by simp
  next
    case ns: False
    show ?thesis
    proof (cases "list_ex (\<lambda>t. content t = content sl) (grpc_static_slice_table E)")
      case False
      then have "\<forall>t\<in>set (grpc_static_slice_table E). content t \<noteq> content sl"
        by (simp add: list_ex_iff)
      from static_probe_none [OF mx this] have "static_probe E st hs sl 0 = Some None" .
      with c False show ?thesis
        by simp
    next
      case True
      then obtain i where i: "i < ?n" and ci: "content (grpc_static_slice_table E ! i) = content sl"
        by (auto simp: list_ex_iff in_set_conv_nth GRPC_STATIC_MDSTR_COUNT_def)
      show ?thesis
      proof (cases "unat hs + unat (max_static_metadata_hash_probe st) < 2 ^ 32")
        case False
        with c ns True show ?thesis
          by (auto split: if_splits)
      next
        case nowrap: True
        have h: "static_hash E ?seed i = hs"
          by (simp add: static_hash_def ci assms(7))
        from b i have "placed E ?seed st i"
          by (simp add: built_def)
        then obtain j where j: "j \<le> unat (max_static_metadata_hash_probe st)"
          and e: "static_metadata_hash st ((unat hs + j) mod static_metadata_hash_size E) =
                    \<lparr>static_metadata_hash_ent.hash = hs, idx = of_nat i\<rparr>"
          unfolding placed_def h by blast
        from static_probe_finds [OF j nowrap e i assms(4) ci, of 0]
        obtain t where "static_probe E st hs sl 0 = Some (Some t)"
          by auto
        with c ns True nowrap show ?thesis
          by simp
      qed
    qed
  qed
  with r d k show ?thesis
    by blast
qed

theorem static_intern_effect_witness:
  "static_metadata_hash ex_booted_sub =
     static_metadata_hash (grpc_slice_intern_init ex_extern 0 ex_power_on) \<and>
   max_static_metadata_hash_probe ex_booted_sub =
     max_static_metadata_hash_probe (grpc_slice_intern_init ex_extern 0 ex_power_on) \<and>
   g_hash_seed ex_booted_sub = g_hash_seed (grpc_slice_intern_init ex_extern 0 ex_power_on) \<and>
   GRPC_STATIC_MDSTR_COUNT ex_extern < 2 ^ 30 \<and>
   slice_ok ex_extern ex_booted_sub ex_sub \<and>
   chains_ok (heap ex_booted_sub) (g_shards ex_booted_sub 0) ex_chains_sub \<and>
   1 \<in> set (concat ex_chains_sub) \<and>
   768 = gpr_murmur_hash3 ex_extern (content ex_sub) (g_hash_seed ex_booted_sub) \<and>
   \<not> grpc_is_static_metadata_string ex_extern ex_sub \<and>
   list_ex (\<lambda>t. content t = content ex_sub) (grpc_static_slice_table ex_extern) \<and>
   unat (768 :: u32) + unat (max_static_metadata_hash_probe ex_booted_sub) < 2 ^ 32 \<and>
   (\<exists>st'. grpc_slice_static_intern ex_extern ex_booted_sub ex_sub = Some (Inr (st', ex_static)) \<and>
          grpc_slice_unref ex_booted_sub ex_sub = Some (Inr st') \<and>
          dom (heap st') \<subseteq> dom (heap ex_booted_sub) \<and>
          capacity (g_shards st' 0) = capacity (g_shards ex_booted_sub 0) \<and>
          count (g_shards st' 0) \<le> count (g_shards ex_booted_sub 0))"
proof -
  note f = ex_booted_sub_fields
  have 4: "GRPC_STATIC_MDSTR_COUNT ex_extern < 2 ^ 30"
    by (simp add: ex_sizes)
  have 5: "slice_ok ex_extern ex_booted_sub ex_sub"
    by (simp add: slice_ok_def ex_sub_def f ex_block_def block_ok_def ex_extern_def)
  have m: "1 \<in> set (concat ex_chains_sub)"
    by (simp add: ex_chains_sub_def)
  have 6: "\<forall>p r. refcount ex_sub = Interned p \<and> heap ex_booted_sub p = Some r \<and> refcnt r = 1 \<longrightarrow>
           chains_ok (heap ex_booted_sub)
             (g_shards ex_booted_sub (SHARD_IDX (interned_slice_refcount.hash r))) ex_chains_sub \<and>
           p \<in> set (concat ex_chains_sub) \<and>
           count (g_shards ex_booted_sub (SHARD_IDX (interned_slice_refcount.hash r))) < 2 ^ 64"
  proof (intro allI impI)
    fix p r
    assume "refcount ex_sub = Interned p \<and> heap ex_booted_sub p = Some r \<and> refcnt r = 1"
    then have p: "p = 1" and r: "r = ex_block 1024 1 None [7, 7, 7, 1]"
      by (auto simp: ex_sub_def f)
    have k: "SHARD_IDX (interned_slice_refcount.hash r) = 0"
      by (simp add: r ex_block_def ex_idx_1024)
    show "chains_ok (heap ex_booted_sub)
             (g_shards ex_booted_sub (SHARD_IDX (interned_slice_refcount.hash r))) ex_chains_sub \<and>
           p \<in> set (concat ex_chains_sub) \<and>
           count (g_shards ex_booted_sub (SHARD_IDX (interned_slice_refcount.hash r))) < 2 ^ 64"
      unfolding k p using ex_booted_sub_chains_ok m by (simp add: f(5))
  qed
  have 7: "768 = gpr_murmur_hash3 ex_extern (content ex_sub) (g_hash_seed ex_booted_sub)"
    by (simp add: ex_extern_def ex_sub_def)
  have ns: "\<not> grpc_is_static_metadata_string ex_extern ex_sub"
    by (simp add: ex_extern_def ex_sub_def)
  have le: "list_ex (\<lambda>t. content t = content ex_sub) (grpc_static_slice_table ex_extern)"
    by (simp add: ex_extern_def ex_static_def ex_sub_def)
  have "max_static_metadata_hash_probe ex_booted_sub = 0"
    using ex_booted_table(2) by (simp add: ex_booted_sub_def)
  then have nw: "unat (768 :: u32) + unat (max_static_metadata_hash_probe ex_booted_sub) < 2 ^ 32"
    by simp
  from static_intern_effect [OF f(1,2,3) 4 5 6 7] obtain st' sl' where
    r: "grpc_slice_static_intern ex_extern ex_booted_sub ex_sub = Some (Inr (st', sl'))"
    and c: "if grpc_is_static_metadata_string ex_extern ex_sub \<or>
               \<not> list_ex (\<lambda>t. content t = content ex_sub) (grpc_static_slice_table ex_extern)
            then sl' = ex_sub \<and> st' = ex_booted_sub
            else if unat (768 :: u32) + unat (max_static_metadata_hash_probe ex_booted_sub) < 2 ^ 32
            then sl' \<in> set (grpc_static_slice_table ex_extern) \<and> content sl' = content ex_sub \<and>
                 grpc_slice_unref ex_booted_sub ex_sub = Some (Inr st')
            else (sl' = ex_sub \<and> st' = ex_booted_sub) \<or>
                 (sl' \<in> set (grpc_static_slice_table ex_extern) \<and> content sl' = content ex_sub \<and>
                  grpc_slice_unref ex_booted_sub ex_sub = Some (Inr st'))"
    and d: "dom (heap st') \<subseteq> dom (heap ex_booted_sub)"
    and k: "\<forall>k. capacity (g_shards st' k) = capacity (g_shards ex_booted_sub k) \<and>
                count (g_shards st' k) \<le> count (g_shards ex_booted_sub k)"
    by blast
  from c ns le nw have "sl' \<in> set (grpc_static_slice_table ex_extern)"
    and u: "grpc_slice_unref ex_booted_sub ex_sub = Some (Inr st')"
    by simp_all
  then have "sl' = ex_static"
    by (simp add: ex_extern_def)
  with r u d k have "\<exists>st'. grpc_slice_static_intern ex_extern ex_booted_sub ex_sub =
            Some (Inr (st', ex_static)) \<and>
          grpc_slice_unref ex_booted_sub ex_sub = Some (Inr st') \<and>
          dom (heap st') \<subseteq> dom (heap ex_booted_sub) \<and>
          capacity (g_shards st' 0) = capacity (g_shards ex_booted_sub 0) \<and>
          count (g_shards st' 0) \<le> count (g_shards ex_booted_sub 0)"
    by blast
  with f(1,2,3) 4 5 ex_booted_sub_chains_ok m 7 ns le nw show ?thesis
    by (intro conjI)
qed

end
